theory Spec2Isabelle
  imports Main "HOL-Library.AList"
begin

section \<open>JavaScript values used by the two servers\<close>

text \<open>
  The repository holds two copies of the same Express server:
  \<^verbatim>\<open>video-proxy-server/server.js\<close> and
  \<^verbatim>\<open>video_proxy_system/mainframe_server/server.js\<close>. Their handlers for
  \<^verbatim>\<open>/stream/:id\<close> and their cleanup timers are the same text; they differ in
  \<^verbatim>\<open>persist\<close>, \<^verbatim>\<open>downloadFull\<close> and \<^verbatim>\<open>/stream-proxy\<close>. One model
  covers both, with the copy as a parameter.
\<close>

datatype variant = VPS | MF
  \<comment> \<open>\<open>VPS\<close>: video-proxy-server/server.js; \<open>MF\<close>: mainframe\_server/server.js\<close>

text \<open>
  Clock readings, file sizes and status codes are integers far below \<open>2 ^ 53\<close>, where
  JavaScript computes exactly: they are modelled as \<open>int\<close>, and \<open>undefined\<close> as
  \<open>None\<close>. The bounds of a Range header are written by the client and can be any
  run of digits, so they are values of the type \<open>number\<close> below: \<open>NaN\<close>, an integer
  that a double holds, or an infinity.
\<close>

definition MAX_SAFE_INTEGER :: int where
  "MAX_SAFE_INTEGER = 2 ^ 53 - 1"

datatype number = NaN | Num int | Infinity | NegInfinity
  \<comment> \<open>\<open>Num n\<close> for an integer \<open>n\<close> that is a double\<close>

function bit_length :: "int \<Rightarrow> nat" where
  \<comment> \<open>the number of binary digits of a positive integer\<close>
  "bit_length n = (if n \<le> 0 then 0 else Suc (bit_length (n div 2)))"
  by pat_completeness auto
termination by (relation "measure nat") auto

declare bit_length.simps [simp del]

definition round_double :: "int \<Rightarrow> int" where
  \<comment> \<open>a non-negative integer rounded to 53 significant binary digits, to the nearest
      value, a tie to the one whose last digit is even\<close>
  "round_double n =
     (let e = bit_length n - 53; q = n div 2 ^ e; r = n mod 2 ^ e
      in if 2 ^ e < 2 * r \<or> (2 * r = 2 ^ e \<and> odd q) then (q + 1) * 2 ^ e else q * 2 ^ e)"

definition to_number :: "int \<Rightarrow> number" where
  \<comment> \<open>the Number for a mathematical integer: the nearest double, an infinity from
      \<open>2 ^ 1024\<close> on\<close>
  "to_number n =
     (if \<bar>n\<bar> \<le> 2 ^ 53 then Num n
      else (let m = round_double \<bar>n\<bar> in
            if 2 ^ 1024 \<le> m then (if n < 0 then NegInfinity else Infinity)
            else Num (if n < 0 then - m else m)))"

fun num_gt :: "number \<Rightarrow> number \<Rightarrow> bool" where
  \<comment> \<open>\<open>a > b\<close>\<close>
  "num_gt (Num a) (Num b) = (b < a)"
| "num_gt Infinity (Num b) = True"
| "num_gt Infinity NegInfinity = True"
| "num_gt (Num a) NegInfinity = True"
| "num_gt _ _ = False"

fun num_plus :: "number \<Rightarrow> number \<Rightarrow> number" where
  \<comment> \<open>\<open>a + b\<close>: the exact sum, rounded\<close>
  "num_plus (Num a) (Num b) = to_number (a + b)"
| "num_plus NaN _ = NaN"
| "num_plus _ NaN = NaN"
| "num_plus Infinity NegInfinity = NaN"
| "num_plus NegInfinity Infinity = NaN"
| "num_plus Infinity _ = Infinity"
| "num_plus _ Infinity = Infinity"
| "num_plus NegInfinity _ = NegInfinity"
| "num_plus _ NegInfinity = NegInfinity"

definition num_minus :: "number \<Rightarrow> number \<Rightarrow> number" where
  \<comment> \<open>\<open>a - b\<close>\<close>
  "num_minus a b =
     num_plus a (case b of NaN \<Rightarrow> NaN | Num n \<Rightarrow> Num (- n) | Infinity \<Rightarrow> NegInfinity
                 | NegInfinity \<Rightarrow> Infinity)"

definition truthy :: "string option \<Rightarrow> bool" where
  \<comment> \<open>a string-valued expression in a condition: \<open>undefined\<close> and \<open>''\<close> are falsy\<close>
  "truthy x = (case x of None \<Rightarrow> False | Some s \<Rightarrow> s \<noteq> [])"

definition num_or :: "int option \<Rightarrow> int option \<Rightarrow> int option" where
  \<comment> \<open>\<open>a || b\<close> on numbers: \<open>undefined\<close> and \<open>0\<close> are falsy\<close>
  "num_or a b = (case a of None \<Rightarrow> b | Some n \<Rightarrow> if n = 0 then b else Some n)"

subsection \<open>Number to string\<close>

definition digit_char :: "nat \<Rightarrow> char" where
  "digit_char d = char_of (48 + d)"

fun digits :: "nat \<Rightarrow> string" where
  "digits n = (if n < 10 then [digit_char n] else digits (n div 10) @ [digit_char (n mod 10)])"

declare digits.simps [simp del]

definition toString :: "int \<Rightarrow> string" where
  \<comment> \<open>\<open>String(n)\<close>, \<open>n.toString()\<close> and \<open>${n}\<close> for an integer \<open>n\<close> of absolute
      value below \<open>10 ^ 21\<close>, from where on JavaScript prints an exponent\<close>
  "toString n = (if n < 0 then CHR ''-'' # digits (nat (- n)) else digits (nat n))"

definition number_toString :: "number \<Rightarrow> string" where
  \<comment> \<open>\<open>String(x)\<close> and \<open>${x}\<close> for a Number; the finite ones that the handlers print
      are at most \<open>2 ^ 53\<close>\<close>
  "number_toString x =
     (case x of NaN \<Rightarrow> ''NaN'' | Num n \<Rightarrow> toString n | Infinity \<Rightarrow> ''Infinity''
      | NegInfinity \<Rightarrow> ''-Infinity'')"

subsection \<open>parseInt(s, 10)\<close>

definition is_ws :: "char \<Rightarrow> bool" where
  \<comment> \<open>the white space and line terminators of a Latin-1 header value:
      TAB, LF, VT, FF, CR, SP, NBSP\<close>
  "is_ws c = (of_char c \<in> {9, 10, 11, 12, 13, 32, 160 :: nat})"

definition is_digit :: "char \<Rightarrow> bool" where
  "is_digit c = (48 \<le> (of_char c :: nat) \<and> (of_char c :: nat) \<le> 57)"

definition digit_val :: "char \<Rightarrow> int" where
  "digit_val c = int (of_char c) - 48"

definition parseInt :: "string \<Rightarrow> number" where
  \<comment> \<open>skip leading white space, read an optional sign, then the longest run of decimal
      digits; no digit gives \<open>NaN\<close>; what follows the digits is ignored; the result is
      the Number for the integer that the digits denote\<close>
  "parseInt s =
     (let t = dropWhile is_ws s;
          neg = (t \<noteq> [] \<and> hd t = CHR ''-'');
          u = (if t \<noteq> [] \<and> (hd t = CHR ''-'' \<or> hd t = CHR ''+'') then tl t else t);
          ds = takeWhile is_digit u
      in if ds = [] then NaN
         else to_number ((if neg then - 1 else 1) * foldl (\<lambda>a c. 10 * a + digit_val c) 0 ds))"

subsection \<open>String.replace with a literal pattern, String.split\<close>

fun replace_first :: "string \<Rightarrow> string \<Rightarrow> string" where
  \<comment> \<open>\<open>s.replace(/pat/, '')\<close> for a pattern without metacharacters: the first
      occurrence of \<open>pat\<close> is removed\<close>
  "replace_first pat [] = []"
| "replace_first pat (c # cs) =
     (if take (length pat) (c # cs) = pat then drop (length pat) (c # cs)
      else c # replace_first pat cs)"

fun split :: "char \<Rightarrow> string \<Rightarrow> string list" where
  \<comment> \<open>\<open>s.split(d)\<close> for a one-character separator; never the empty list\<close>
  "split d [] = [[]]"
| "split d (c # cs) =
     (if c = d then [] # split d cs
      else (case split d cs of [] \<Rightarrow> [[c]] | p # ps \<Rightarrow> (c # p) # ps))"

definition index1 :: "string list \<Rightarrow> string option" where
  \<comment> \<open>\<open>parts[1]\<close>: \<open>undefined\<close> when the array has one element\<close>
  "index1 parts = (case parts of _ # p # _ \<Rightarrow> Some p | _ \<Rightarrow> None)"

section \<open>The cache store and the file system\<close>

datatype status = Downloading | Ready | Error

record entry =
  entry_id :: string
  source :: "string option"
  status :: status
  path :: "string option"
  entry_size :: "int option"
  addedAt :: "int option"
  lastAccess :: "int option"
  error :: "string option"

text \<open>
  The file system keeps directory entries apart from file contents: a write stream holds
  the file it opened, not its name, so a rename moves the name and leaves the writers
  where they are.
\<close>

record filesys =
  links :: "string \<rightharpoonup> nat"
  inodes :: "nat \<Rightarrow> string"
  next_ino :: nat

definition existsSync :: "filesys \<Rightarrow> string \<Rightarrow> bool" where
  "existsSync fs p = (links fs p \<noteq> None)"

definition readFile :: "filesys \<Rightarrow> string \<Rightarrow> string" where
  \<comment> \<open>the bytes of an existing file\<close>
  "readFile fs p = (case links fs p of None \<Rightarrow> [] | Some i \<Rightarrow> inodes fs i)"

definition statSync_size :: "filesys \<Rightarrow> string \<Rightarrow> int" where
  \<comment> \<open>\<open>fs.statSync(p).size\<close> of an existing file\<close>
  "statSync_size fs p = int (length (readFile fs p))"

datatype error =
    WriteFailed | ENOENT | EPERM | TypeError | FetchFailed | ERR_OUT_OF_RANGE
  | ERR_HTTP_HEADERS_SENT

record state =
  videos :: "(string \<times> entry) list"
    \<comment> \<open>the object \<open>videos\<close>: keys in insertion order, each key once\<close>
  fs :: filesys
  metadata :: "(string \<times> entry) list option"
    \<comment> \<open>what \<open>videos.json\<close> holds: the last snapshot written\<close>
  console :: "string list"

subsection \<open>persist\<close>

text \<open>
  video-proxy-server/server.js lines 31-37, mainframe\_server/server.js lines 29-31.
  \<open>wok\<close> says whether \<open>fs.writeFileSync(METADATA_FILE, ...)\<close> succeeds. The result is
  the state and the exception that leaves the function, if any. In video-proxy-server the
  write stands in a try/catch that logs; in mainframe\_server it stands alone. After a
  failed write the model keeps the last snapshot as the content of the file. An exception
  that leaves a handler is a value of the model; what Node does with it (an unhandled
  rejection or an uncaught exception ends the process by default) is not modelled.
\<close>

definition persist :: "variant \<Rightarrow> bool \<Rightarrow> state \<Rightarrow> state \<times> error option" where
  "persist v wok s =
     (if wok then (s\<lparr>metadata := Some (videos s)\<rparr>, None)
      else (case v of
              VPS \<Rightarrow> (s\<lparr>console := console s @ [''persist error'']\<rparr>, None)
            | MF \<Rightarrow> (s, Some WriteFailed)))"

section \<open>GET /stream/:id\<close>

text \<open>
  video-proxy-server/server.js lines 112-149, mainframe\_server/server.js lines 146-184:
  the same text in both.
\<close>

record response =
  statusCode :: nat
  headers :: "(string \<times> string) list"
    \<comment> \<open>the headers the handler sets itself, in its order; Express adds its own\<close>
  body :: string

datatype outcome = Responded response | Threw error

definition json_error :: "string \<Rightarrow> string" where
  \<comment> \<open>\<open>JSON.stringify({ error: msg })\<close> for a message without characters to escape\<close>
  "json_error msg = ''{\"error\":\"'' @ msg @ ''\"}''"

definition not_cached :: response where
  \<comment> \<open>\<open>res.status(404).json({ error: 'not cached' })\<close>\<close>
  "not_cached = \<lparr>statusCode = 404, headers = [], body = json_error ''not cached''\<rparr>"

definition range_start :: "string \<Rightarrow> number" where
  "range_start rng = parseInt (hd (split CHR ''-'' (replace_first ''bytes='' rng)))"

definition range_end :: "string \<Rightarrow> int \<Rightarrow> number" where
  "range_end rng total_size =
     (let parts = split CHR ''-'' (replace_first ''bytes='' rng)
      in if truthy (index1 parts) then parseInt (the (index1 parts))
         else to_number (total_size - 1))"

definition read_slice :: "string \<Rightarrow> int \<Rightarrow> int \<Rightarrow> string" where
  \<comment> \<open>the bytes from \<open>start\<close> to \<open>end\<close> inclusive, as far as the file has them\<close>
  "read_slice content start end = take (nat (end - start + 1)) (drop (nat start) content)"

text \<open>
  \<open>fs.createReadStream(filePath, { start, end })\<close> checks its options before it opens
  the file: \<open>start\<close> must be an integer from 0 to \<open>MAX_SAFE_INTEGER\<close>, and so must
  \<open>end\<close> unless it is \<open>Infinity\<close>, which reads to the end of the file; a finite
  \<open>end\<close> must not be below \<open>start\<close>. Otherwise it throws \<open>ERR_OUT_OF_RANGE\<close>.
\<close>

definition createReadStream :: "string \<Rightarrow> number \<Rightarrow> number \<Rightarrow> error + string" where
  "createReadStream content start end =
     (case start of
        Num a \<Rightarrow>
          if 0 \<le> a \<and> a \<le> MAX_SAFE_INTEGER then
            (case end of
               Infinity \<Rightarrow> Inr (drop (nat a) content)
             | Num b \<Rightarrow>
                 if 0 \<le> b \<and> b \<le> MAX_SAFE_INTEGER \<and> a \<le> b then Inr (read_slice content a b)
                 else Inl ERR_OUT_OF_RANGE
             | _ \<Rightarrow> Inl ERR_OUT_OF_RANGE)
          else Inl ERR_OUT_OF_RANGE
      | _ \<Rightarrow> Inl ERR_OUT_OF_RANGE)"

text \<open>
  The \<open>if (range) ... else ...\<close> of the handler, on the file's bytes; \<open>rng\<close> is
  \<open>req.headers.range\<close>. \<open>res.writeHead(206, ...)\<close> stands before
  \<open>fs.createReadStream\<close> and only stages the head, which goes out with the first byte
  of the body: when \<open>createReadStream\<close> throws, the exception leaves the handler and
  the staged head is never sent.
\<close>

definition serve_file :: "string option \<Rightarrow> string \<Rightarrow> outcome" where
  "serve_file rng content =
     (let total_size = int (length content) in
      if truthy rng then
        (let r = the rng; start = range_start r; end = range_end r total_size in
         if start = NaN \<or> end = NaN \<or> num_gt start end
         then Responded
                \<lparr>statusCode = 416, headers = [], body = ''Requested Range Not Satisfiable''\<rparr>
         else
           (let chunkSize = num_plus (num_minus end start) (Num 1) in
            case createReadStream content start end of
              Inl e \<Rightarrow> Threw e
            | Inr bytes \<Rightarrow>
                Responded
                  \<lparr>statusCode = 206,
                   headers =
                     [(''Content-Range'',
                         ''bytes '' @ number_toString start @ ''-'' @ number_toString end @ ''/''
                           @ toString total_size),
                      (''Accept-Ranges'', ''bytes''),
                      (''Content-Length'', number_toString chunkSize),
                      (''Content-Type'', ''video/mp4''),
                      (''Cache-Control'', ''no-store'')],
                   body = bytes\<rparr>))
      else
        Responded
          \<lparr>statusCode = 200,
           headers =
             [(''Content-Length'', toString total_size),
              (''Content-Type'', ''video/mp4''),
              (''Accept-Ranges'', ''bytes''),
              (''Cache-Control'', ''no-store'')],
           body = content\<rparr>)"

definition touch :: "string \<Rightarrow> int \<Rightarrow> state \<Rightarrow> state" where
  \<comment> \<open>\<open>info.lastAccess = Date.now()\<close>, \<open>info\<close> being the object stored under the key \<open>vid\<close>\<close>
  "touch vid now s =
     s\<lparr>videos := map (\<lambda>(k, e). if k = vid then (k, e\<lparr>lastAccess := Some now\<rparr>) else (k, e))
                    (videos s)\<rparr>"

definition stream :: "variant \<Rightarrow> bool \<Rightarrow> int \<Rightarrow> string \<Rightarrow> string option \<Rightarrow> state
    \<Rightarrow> state \<times> outcome" where
  "stream v wok now vid rng s =
     (case map_of (videos s) vid of
        None \<Rightarrow> (s, Responded not_cached)
      | Some info \<Rightarrow>
          if \<not> truthy (path info) \<or> \<not> existsSync (fs s) (the (path info))
          then (s, Responded not_cached)
          else
            (let content = readFile (fs s) (the (path info)) in
             case persist v wok (touch vid now s) of
               (s', Some e) \<Rightarrow> (s', Threw e)
             | (s', None) \<Rightarrow> (s', serve_file rng content)))"

section \<open>The cleanup task\<close>

text \<open>
  video-proxy-server/server.js lines 69-81, mainframe\_server/server.js lines 65-81.
  \<open>INACTIVITY_MINUTES\<close> is the configured number, an integer here.
\<close>

definition last_of :: "entry \<Rightarrow> int" where
  \<comment> \<open>\<open>info.lastAccess || info.addedAt || 0\<close>\<close>
  "last_of info =
     (case num_or (num_or (lastAccess info) (addedAt info)) (Some 0) of
        None \<Rightarrow> 0 | Some n \<Rightarrow> n)"

text \<open>
  \<open>fs.unlinkSync\<close> throws when the file is missing, and when the operating system
  refuses the removal; \<open>locked\<close> is the set of paths it refuses.
\<close>

definition unlinkSync :: "(string \<Rightarrow> bool) \<Rightarrow> filesys \<Rightarrow> string \<Rightarrow> filesys \<times> error option" where
  "unlinkSync locked fsys p =
     (if links fsys p = None then (fsys, Some ENOENT)
      else if locked p then (fsys, Some EPERM)
      else (fsys\<lparr>links := (links fsys)(p := None)\<rparr>, None))"

definition cleanup_entry :: "int \<Rightarrow> int \<Rightarrow> (string \<Rightarrow> bool) \<Rightarrow> state \<Rightarrow> string \<times> entry \<Rightarrow> state" where
  \<comment> \<open>the body of the \<open>for\<close> loop; the exception of \<open>unlinkSync\<close> is caught and dropped\<close>
  "cleanup_entry now INACTIVITY_MINUTES locked s kv =
     (case kv of (vid, info) \<Rightarrow>
        if \<not> truthy (path info) then s
        else if now - last_of info > INACTIVITY_MINUTES * 60 * 1000 then
          s\<lparr>fs := fst (unlinkSync locked (fs s) (the (path info))),
            videos := AList.delete vid (videos s),
            console := console s @ [''Deleted '' @ vid]\<rparr>
        else s)"

definition cleanup :: "variant \<Rightarrow> bool \<Rightarrow> int \<Rightarrow> int \<Rightarrow> (string \<Rightarrow> bool) \<Rightarrow> state
    \<Rightarrow> state \<times> error option" where
  \<comment> \<open>one run of the timer callback: the loop over \<open>Object.entries(videos)\<close>, taken
      before the loop starts, then \<open>persist()\<close>\<close>
  "cleanup v wok now INACTIVITY_MINUTES locked s =
     persist v wok (foldl (cleanup_entry now INACTIVITY_MINUTES locked) s (videos s))"

fun cleanups :: "variant \<Rightarrow> int \<Rightarrow> (string \<Rightarrow> bool) \<Rightarrow> (bool \<times> int) list \<Rightarrow> state \<Rightarrow> state" where
  \<comment> \<open>the timer firing again and again: each run with its clock reading and the outcome
      of its write\<close>
  "cleanups v INACTIVITY_MINUTES locked [] s = s"
| "cleanups v INACTIVITY_MINUTES locked ((wok, now) # ticks) s =
     cleanups v INACTIVITY_MINUTES locked ticks
       (fst (cleanup v wok now INACTIVITY_MINUTES locked s))"

definition stale :: "int \<Rightarrow> int \<Rightarrow> entry \<Rightarrow> bool" where
  \<comment> \<open>the two tests of the loop body that lead to the removal\<close>
  "stale now INACTIVITY_MINUTES info =
     (truthy (path info) \<and> now - last_of info > INACTIVITY_MINUTES * 60 * 1000)"

section \<open>GET /add and downloadFull\<close>

text \<open>
  video-proxy-server/server.js lines 39-66 and 99-109, mainframe\_server/server.js lines
  33-63 and 93-109. \<open>sha1_hex\<close> stands for
  \<open>crypto.createHash('sha1').update(x).digest('hex')\<close> and \<open>valid_url\<close> for
  \<open>new URL(url)\<close> not throwing: both are library code and parameters here.
\<close>

definition genId :: "(string \<Rightarrow> string) \<Rightarrow> string \<Rightarrow> int \<Rightarrow> string" where
  \<comment> \<open>\<open>now\<close> is what \<open>Date.now()\<close> returns inside the call\<close>
  "genId sha1_hex seed now = take 12 (sha1_hex (seed @ toString now))"

definition filePath :: "string \<Rightarrow> string \<Rightarrow> string" where
  \<comment> \<open>\<open>path.join(DATA_DIR, id)\<close>, for a \<open>DATA_DIR\<close> without a trailing separator\<close>
  "filePath DATA_DIR vid = DATA_DIR @ ''/'' @ vid"

definition tmpPath :: "string \<Rightarrow> string \<Rightarrow> string" where
  "tmpPath DATA_DIR vid = filePath DATA_DIR vid @ ''.part''"

subsection \<open>File operations of the download\<close>

definition renameSync :: "filesys \<Rightarrow> string \<Rightarrow> string \<Rightarrow> filesys \<times> error option" where
  "renameSync fsys old new =
     (case links fsys old of
        None \<Rightarrow> (fsys, Some ENOENT)
      | Some i \<Rightarrow> (fsys\<lparr>links := ((links fsys)(old := None))(new \<mapsto> i)\<rparr>, None))"

definition createWriteStream :: "filesys \<Rightarrow> string \<Rightarrow> filesys \<times> nat" where
  \<comment> \<open>opens with flag \<open>w\<close>: an existing file is truncated, a missing one created; the
      result is the file the stream writes to\<close>
  "createWriteStream fsys p =
     (case links fsys p of
        Some i \<Rightarrow> (fsys\<lparr>inodes := (inodes fsys)(i := [])\<rparr>, i)
      | None \<Rightarrow>
          (fsys\<lparr>links := (links fsys)(p \<mapsto> next_ino fsys),
                 inodes := (inodes fsys)(next_ino fsys := []),
                 next_ino := Suc (next_ino fsys)\<rparr>,
           next_ino fsys))"

definition write_at :: "string \<Rightarrow> nat \<Rightarrow> string \<Rightarrow> string" where
  \<comment> \<open>a write of \<open>chunk\<close> at position \<open>pos\<close>: a gap before it reads as zero bytes\<close>
  "write_at content pos chunk =
     take pos content @ replicate (pos - length content) (CHR 0x00) @ chunk
       @ drop (pos + length chunk) content"

subsection \<open>Downloads in flight\<close>

text \<open>
  \<open>downloadFull\<close> is an async function: it runs up to an \<open>await\<close>, and the event
  loop runs other handlers before it goes on. A call in flight is a \<open>task\<close>; each
  continuation of the function is one function of the model.
\<close>

datatype phase = Fetching | Piping | Settled

record task =
  task_id :: string
  task_url :: string
  phase :: phase
  writer :: "nat option"
    \<comment> \<open>the file the write stream has open\<close>
  written :: nat
    \<comment> \<open>the position of the write stream\<close>
  incoming :: "string list"
    \<comment> \<open>the chunks of the body still to arrive\<close>
  delivered :: "string list"
    \<comment> \<open>the chunks written so far\<close>

record world =
  st :: state
  tasks :: "task list"

datatype upstream = Unreachable | Head nat "string list"
  \<comment> \<open>the request fails, or a response arrives: its status and the chunks of its body\<close>

definition message :: "error \<Rightarrow> string" where
  \<comment> \<open>\<open>err.message\<close>: a text for each error of the model, never empty\<close>
  "message e =
     (case e of WriteFailed \<Rightarrow> ''write failed'' | ENOENT \<Rightarrow> ''ENOENT: no such file or directory''
      | EPERM \<Rightarrow> ''EPERM: operation not permitted''
      | TypeError \<Rightarrow> ''Cannot set properties of undefined''
      | FetchFailed \<Rightarrow> ''fetch failed''
      | ERR_OUT_OF_RANGE \<Rightarrow> ''The value is out of range''
      | ERR_HTTP_HEADERS_SENT \<Rightarrow> ''Cannot set headers after they are sent to the client'')"

definition set_entry :: "string \<Rightarrow> (entry \<Rightarrow> entry) \<Rightarrow> state \<Rightarrow> state" where
  \<comment> \<open>assignments to fields of \<open>videos[id]\<close>, for an id in the store\<close>
  "set_entry vid f s =
     s\<lparr>videos := map (\<lambda>(k, e). if k = vid then (k, f e) else (k, e)) (videos s)\<rparr>"

definition on_error :: "variant \<Rightarrow> bool \<Rightarrow> string \<Rightarrow> error \<Rightarrow> state \<Rightarrow> state \<times> error option" where
  \<comment> \<open>the \<open>catch (err)\<close> block of \<open>downloadFull\<close>; video-proxy-server tests
      \<open>if (videos[id])\<close>, mainframe\_server assigns at once\<close>
  "on_error v wok vid err s =
     (case v of
        VPS \<Rightarrow>
          (let s1 = s\<lparr>console := console s @ [''download error '' @ message err]\<rparr> in
           if map_of (videos s1) vid = None then (s1, None)
           else persist VPS wok
                  (set_entry vid (\<lambda>e. e\<lparr>status := Error, error := Some (message err)\<rparr>) s1))
      | MF \<Rightarrow>
          (let s1 = s\<lparr>console := console s @ [''downloadFull error '' @ message err]\<rparr> in
           if map_of (videos s1) vid = None then (s1, Some TypeError)
           else persist MF wok
                  (set_entry vid
                     (\<lambda>e. e\<lparr>status := Error, error := Some (''Error: '' @ message err)\<rparr>) s1)))"

definition downloadFull_end :: "variant \<Rightarrow> string \<Rightarrow> bool \<Rightarrow> bool \<Rightarrow> int \<Rightarrow> string \<Rightarrow> state
    \<Rightarrow> state \<times> error option" where
  \<comment> \<open>from \<open>fs.renameSync(tmpPath, filePath)\<close> to the end, once \<open>await pipeline\<close> has
      returned; \<open>wok\<close> is for the \<open>persist()\<close> of the try block, \<open>wok'\<close> for that of
      the catch block\<close>
  "downloadFull_end v DATA_DIR wok wok' now vid s =
     (case renameSync (fs s) (tmpPath DATA_DIR vid) (filePath DATA_DIR vid) of
        (_, Some e) \<Rightarrow> on_error v wok' vid e s
      | (fs1, None) \<Rightarrow>
          (let s1 = s\<lparr>fs := fs1\<rparr> in
           if map_of (videos s1) vid = None then on_error v wok' vid TypeError s1
           else
             (let s2 = set_entry vid
                    (\<lambda>e. e\<lparr>status := Ready, path := Some (filePath DATA_DIR vid),
                          entry_size := Some (statSync_size fs1 (filePath DATA_DIR vid)),
                          lastAccess := Some now\<rparr>) s1
              in case persist v wok s2 of
                   (s3, Some e) \<Rightarrow> on_error v wok' vid e s3
                 | (s3, None) \<Rightarrow> (s3\<lparr>console := console s3 @ [''Downloaded '' @ vid]\<rparr>, None))))"

definition downloadFull_start :: "variant \<Rightarrow> string \<Rightarrow> string \<Rightarrow> string \<Rightarrow> world \<Rightarrow> world" where
  \<comment> \<open>the call itself, up to the first \<open>await\<close>: video-proxy-server creates the write
      stream before the request, mainframe\_server after the response\<close>
  "downloadFull_start v DATA_DIR url vid w =
     (case v of
        VPS \<Rightarrow>
          (case createWriteStream (fs (st w)) (tmpPath DATA_DIR vid) of
             (fs1, i) \<Rightarrow>
               \<lparr>st = (st w)\<lparr>fs := fs1\<rparr>,
                tasks = tasks w @
                  [\<lparr>task_id = vid, task_url = url, phase = Fetching, writer = Some i,
                    written = 0, incoming = [], delivered = []\<rparr>]\<rparr>)
      | MF \<Rightarrow>
          w\<lparr>tasks := tasks w @
             [\<lparr>task_id = vid, task_url = url, phase = Fetching, writer = None,
               written = 0, incoming = [], delivered = []\<rparr>]\<rparr>)"

definition new_entry :: "string \<Rightarrow> string option \<Rightarrow> int \<Rightarrow> entry" where
  \<comment> \<open>the object \<open>/add\<close> stores: \<open>{ id, source: url, status: 'downloading', addedAt }\<close>\<close>
  "new_entry vid url now' =
     \<lparr>entry_id = vid, source = url, status = Downloading, path = None,
      entry_size = None, addedAt = Some now', lastAccess = None, error = None\<rparr>"

definition missing_url :: response where
  "missing_url = \<lparr>statusCode = 400, headers = [], body = json_error ''missing url''\<rparr>"

definition invalid_url :: response where
  "invalid_url = \<lparr>statusCode = 400, headers = [], body = json_error ''invalid url''\<rparr>"

definition add :: "variant \<Rightarrow> (string \<Rightarrow> string) \<Rightarrow> (string \<Rightarrow> bool) \<Rightarrow> string \<Rightarrow> bool \<Rightarrow> int \<Rightarrow> int
    \<Rightarrow> string option \<Rightarrow> world \<Rightarrow> world \<times> outcome" where
  \<comment> \<open>\<open>now\<close> is the clock reading inside \<open>genId\<close>, \<open>now'\<close> the one stored as
      \<open>addedAt\<close>\<close>
  "add v sha1_hex valid_url DATA_DIR wok now now' url w =
     (if \<not> truthy url then (w, Responded missing_url)
      else if \<not> valid_url (the url) then (w, Responded invalid_url)
      else
        (let vid = genId sha1_hex (the url) now;
             s1 = (st w)\<lparr>videos := AList.update vid (new_entry vid url now') (videos (st w))\<rparr>
         in case persist v wok s1 of
              (s2, Some e) \<Rightarrow> (w\<lparr>st := s2\<rparr>, Threw e)
            | (s2, None) \<Rightarrow>
                (downloadFull_start v DATA_DIR (the url) vid (w\<lparr>st := s2\<rparr>),
                 Responded
                   \<lparr>statusCode = 200, headers = [],
                    body = ''{\"id\":\"'' @ vid @ ''\",\"status\":\"downloading\"}''\<rparr>)))"

subsection \<open>The continuations of downloadFull\<close>

definition settle :: "task \<Rightarrow> task" where
  \<comment> \<open>the call has returned or thrown\<close>
  "settle t = t\<lparr>phase := Settled\<rparr>"

definition downloadFull_response :: "variant \<Rightarrow> string \<Rightarrow> bool \<Rightarrow> bool \<Rightarrow> upstream \<Rightarrow> task \<Rightarrow> state
    \<Rightarrow> state \<times> task" where
  \<comment> \<open>the request settles. axios throws on a failure and on a status outside 2xx;
      fetch throws on a failure only, and mainframe\_server tests \<open>res.ok\<close> itself,
      then creates the write stream. An exception runs the catch block.\<close>
  "downloadFull_response v DATA_DIR wok wok' up t s =
     (case up of
        Unreachable \<Rightarrow> (fst (on_error v wok' (task_id t) FetchFailed s), settle t)
      | Head code chunks \<Rightarrow>
          (case v of
             VPS \<Rightarrow>
               if 200 \<le> code \<and> code < 300
               then (s, t\<lparr>phase := Piping, incoming := chunks\<rparr>)
               else (fst (on_error VPS wok' (task_id t) FetchFailed s), settle t)
           | MF \<Rightarrow>
               if \<not> (200 \<le> code \<and> code \<le> 299) then
                 (if map_of (videos s) (task_id t) = None
                  then (fst (on_error MF wok' (task_id t) TypeError s), settle t)
                  else
                    (case persist MF wok
                            (set_entry (task_id t)
                               (\<lambda>e. e\<lparr>status := Error,
                                     error := Some (''fetch_failed_'' @ toString (int code))\<rparr>) s) of
                       (s', Some e) \<Rightarrow> (fst (on_error MF wok' (task_id t) e s'), settle t)
                     | (s', None) \<Rightarrow> (s', settle t)))
               else
                 (case createWriteStream (fs s) (tmpPath DATA_DIR (task_id t)) of
                    (fs1, i) \<Rightarrow>
                      (s\<lparr>fs := fs1\<rparr>, t\<lparr>phase := Piping, writer := Some i, incoming := chunks\<rparr>))))"

definition downloadFull_chunk :: "task \<Rightarrow> filesys \<Rightarrow> filesys \<times> task" where
  \<comment> \<open>\<open>pipeline\<close> hands the next chunk to the write stream, which writes it at its
      own position into the file it has open\<close>
  "downloadFull_chunk t fsys =
     (case (writer t, incoming t) of
        (Some i, c # cs) \<Rightarrow>
          (fsys\<lparr>inodes := (inodes fsys)(i := write_at (inodes fsys i) (written t) c)\<rparr>,
           t\<lparr>written := written t + length c, incoming := cs, delivered := delivered t @ [c]\<rparr>)
      | _ \<Rightarrow> (fsys, t))"

subsection \<open>The event loop\<close>

text \<open>
  What the event loop can run next: a request to \<open>/add\<close> or \<open>/stream/:id\<close>, the
  cleanup timer, or the next continuation of the download numbered \<open>k\<close>. Each event
  carries what the environment decides: clock readings, whether a write of
  \<open>videos.json\<close> succeeds, what the origin sends. An event that is not enabled leaves
  the world as it is. The admin endpoints of video-proxy-server are not among the events.
\<close>

datatype event =
    Add bool int int "string option"
      \<comment> \<open>\<open>GET /add\<close>: the write succeeds, the two clock readings, \<open>req.query.url\<close>\<close>
  | Response nat upstream bool bool
      \<comment> \<open>the request of download \<open>k\<close> settles\<close>
  | Chunk nat
      \<comment> \<open>the write stream of download \<open>k\<close> writes the next chunk\<close>
  | Abort nat error bool
      \<comment> \<open>\<open>await pipeline\<close> of download \<open>k\<close> throws\<close>
  | Finish nat bool bool int
      \<comment> \<open>\<open>await pipeline\<close> of download \<open>k\<close> returns: every chunk is written\<close>
  | Stream bool int string "string option"
      \<comment> \<open>\<open>GET /stream/:id\<close>\<close>
  | Cleanup bool int "string \<Rightarrow> bool"
      \<comment> \<open>the cleanup timer fires\<close>

definition step :: "variant \<Rightarrow> (string \<Rightarrow> string) \<Rightarrow> (string \<Rightarrow> bool) \<Rightarrow> string \<Rightarrow> int \<Rightarrow> event \<Rightarrow> world
    \<Rightarrow> world" where
  "step v sha1_hex valid_url DATA_DIR INACTIVITY_MINUTES ev w =
     (case ev of
        Add wok now now' url \<Rightarrow> fst (add v sha1_hex valid_url DATA_DIR wok now now' url w)
      | Response k up wok wok' \<Rightarrow>
          if k < length (tasks w) \<and> phase (tasks w ! k) = Fetching then
            (case downloadFull_response v DATA_DIR wok wok' up (tasks w ! k) (st w) of
               (s', t') \<Rightarrow> \<lparr>st = s', tasks = (tasks w)[k := t']\<rparr>)
          else w
      | Chunk k \<Rightarrow>
          if k < length (tasks w) \<and> phase (tasks w ! k) = Piping then
            (case downloadFull_chunk (tasks w ! k) (fs (st w)) of
               (fs', t') \<Rightarrow> \<lparr>st = (st w)\<lparr>fs := fs'\<rparr>, tasks = (tasks w)[k := t']\<rparr>)
          else w
      | Abort k err wok' \<Rightarrow>
          if k < length (tasks w) \<and> phase (tasks w ! k) = Piping then
            \<lparr>st = fst (on_error v wok' (task_id (tasks w ! k)) err (st w)),
             tasks = (tasks w)[k := settle (tasks w ! k)]\<rparr>
          else w
      | Finish k wok wok' now \<Rightarrow>
          if k < length (tasks w) \<and> phase (tasks w ! k) = Piping \<and> incoming (tasks w ! k) = [] then
            \<lparr>st = fst (downloadFull_end v DATA_DIR wok wok' now (task_id (tasks w ! k)) (st w)),
             tasks = (tasks w)[k := settle (tasks w ! k)]\<rparr>
          else w
      | Stream wok now vid rng \<Rightarrow> w\<lparr>st := fst (stream v wok now vid rng (st w))\<rparr>
      | Cleanup wok now locked \<Rightarrow>
          w\<lparr>st := fst (cleanup v wok now INACTIVITY_MINUTES locked (st w))\<rparr>)"

definition run :: "variant \<Rightarrow> (string \<Rightarrow> string) \<Rightarrow> (string \<Rightarrow> bool) \<Rightarrow> string \<Rightarrow> int \<Rightarrow> event list \<Rightarrow> world
    \<Rightarrow> world" where
  "run v sha1_hex valid_url DATA_DIR INACTIVITY_MINUTES evs w =
     foldl (\<lambda>w ev. step v sha1_hex valid_url DATA_DIR INACTIVITY_MINUTES ev w) w evs"

definition init_world :: world where
  \<comment> \<open>a server started on an empty data directory\<close>
  "init_world =
     \<lparr>st = \<lparr>videos = [], fs = \<lparr>links = Map.empty, inodes = (\<lambda>_. []), next_ino = 0\<rparr>,
            metadata = None, console = []\<rparr>,
      tasks = []\<rparr>"

text \<open>The ids that the \<open>/add\<close> calls of a trace give out.\<close>

fun minted :: "(string \<Rightarrow> string) \<Rightarrow> (string \<Rightarrow> bool) \<Rightarrow> event list \<Rightarrow> string list" where
  "minted sha1_hex valid_url [] = []"
| "minted sha1_hex valid_url (Add wok now now' url # evs) =
     (if truthy url \<and> valid_url (the url)
      then genId sha1_hex (the url) now # minted sha1_hex valid_url evs
      else minted sha1_hex valid_url evs)"
| "minted sha1_hex valid_url (_ # evs) = minted sha1_hex valid_url evs"

subsection \<open>Invariant of the store, the files and the downloads\<close>

text \<open>
  \<open>U\<close> is the set of ids given out so far. Ids have 12 characters, so no final path
  is a temporary path. No file has two names. A download in flight that has a write
  stream has it on the file at its temporary path, which holds what it has written; an
  entry has a path exactly when its final path exists, and then its download has ended
  and the file holds all the chunks it received.
\<close>

definition paths_of :: "state \<Rightarrow> (string \<times> string option) list" where
  "paths_of s = map (\<lambda>(k, e). (k, path e)) (videos s)"

definition ids_ok :: "string set \<Rightarrow> world \<Rightarrow> bool" where
  "ids_ok U w =
     ((\<forall>u \<in> U. length u = 12) \<and> distinct (map task_id (tasks w)) \<and>
      task_id ` set (tasks w) \<subseteq> U \<and> fst ` set (paths_of (st w)) \<subseteq> U \<and>
      distinct (map fst (paths_of (st w))))"

definition fs_ok :: "string \<Rightarrow> string set \<Rightarrow> filesys \<Rightarrow> bool" where
  "fs_ok D U fsys =
     ((\<forall>p i. links fsys p = Some i \<longrightarrow>
          i < next_ino fsys \<and> (\<exists>u \<in> U. p = filePath D u \<or> p = tmpPath D u)) \<and>
      (\<forall>p q i. links fsys p = Some i \<and> links fsys q = Some i \<longrightarrow> p = q))"

definition writer_ok :: "variant \<Rightarrow> string \<Rightarrow> filesys \<Rightarrow> task \<Rightarrow> bool" where
  "writer_ok v D fsys t =
     (phase t \<noteq> Settled \<longrightarrow>
        (case writer t of
           None \<Rightarrow>
             v = MF \<and> phase t = Fetching \<and> delivered t = [] \<and> written t = 0 \<and>
             links fsys (tmpPath D (task_id t)) = None
         | Some i \<Rightarrow>
             (v = MF \<longrightarrow> phase t = Piping) \<and>
             links fsys (tmpPath D (task_id t)) = Some i \<and>
             inodes fsys i = concat (delivered t) \<and>
             written t = length (concat (delivered t))))"

definition promoted_ok :: "string \<Rightarrow> filesys \<Rightarrow> task list \<Rightarrow> string \<times> string option \<Rightarrow> bool" where
  "promoted_ok D fsys ts kp =
     (case kp of (vid, p) \<Rightarrow>
        (truthy p \<longleftrightarrow> existsSync fsys (filePath D vid)) \<and>
        (truthy p \<longrightarrow>
           p = Some (filePath D vid) \<and> vid \<in> task_id ` set ts \<and>
           (\<forall>t \<in> set ts. task_id t = vid \<longrightarrow>
              phase t = Settled \<and> incoming t = [] \<and>
              readFile fsys (filePath D vid) = concat (delivered t))))"

definition coherent :: "variant \<Rightarrow> string \<Rightarrow> string set \<Rightarrow> world \<Rightarrow> bool" where
  "coherent v D U w =
     (ids_ok U w \<and> fs_ok D U (fs (st w)) \<and>
      (\<forall>t \<in> set (tasks w). writer_ok v D (fs (st w)) t) \<and>
      (\<forall>kp \<in> set (paths_of (st w)). promoted_ok D (fs (st w)) (tasks w) kp))"

section \<open>GET /stream-proxy\<close>

text \<open>
  video-proxy-server/server.js lines 152-177, mainframe\_server/server.js lines 188-218.
\<close>

record origin_response =
  o_status :: nat
  o_headers :: "string \<rightharpoonup> string"
    \<comment> \<open>by lower-case name, as axios and fetch give them\<close>
  o_body :: string

datatype fetched = NoResponse | Fetched origin_response
  \<comment> \<open>\<open>NoResponse\<close>: the request throws (connection failure, timeout)\<close>

definition str_or :: "string option \<Rightarrow> string \<Rightarrow> string" where
  \<comment> \<open>\<open>a || b\<close> on strings\<close>
  "str_or a b = (if truthy a then the a else b)"

definition upstream_refused :: "variant \<Rightarrow> nat \<Rightarrow> bool" where
  \<comment> \<open>\<open>upstream.status >= 400\<close> in video-proxy-server, \<open>!upstream.ok\<close> in
      mainframe\_server\<close>
  "upstream_refused v code =
     (case v of VPS \<Rightarrow> code \<ge> 400 | MF \<Rightarrow> \<not> (200 \<le> code \<and> code \<le> 299))"

definition staged_headers :: "variant \<Rightarrow> origin_response \<Rightarrow> (string \<times> string) list" where
  \<comment> \<open>the \<open>res.setHeader\<close> calls, in their order\<close>
  "staged_headers v up =
     (if o_status up = 206 then
        (if truthy (o_headers up ''content-range'')
         then [(''Content-Range'', the (o_headers up ''content-range''))] else [])
        @ [(''Accept-Ranges'', str_or (o_headers up ''accept-ranges'') ''bytes'')]
      else [])
     @ (if truthy (o_headers up ''content-length'')
        then [(''Content-Length'', the (o_headers up ''content-length''))] else [])
     @ (case v of
          VPS \<Rightarrow>
            (if truthy (o_headers up ''content-type'')
             then [(''Content-Type'', the (o_headers up ''content-type''))] else [])
        | MF \<Rightarrow>
            [(''Content-Type'', str_or (o_headers up ''content-type'') ''application/octet-stream'')])
     @ [(''Cache-Control'', ''no-store'')]"

text \<open>
  \<open>res.status\<close> and \<open>res.setHeader\<close> stage the head of the response; it is sent
  with the first byte that \<open>pipeline\<close> writes to \<open>res\<close>, or with the end of an empty
  body. When \<open>pipeline\<close> fails it destroys \<open>res\<close>, and with it the connection, and
  the handler goes on in its catch block with \<open>res.status(502).json(...)\<close>. If bytes
  were written before, the client has the staged head and those bytes, and the call
  throws \<open>ERR_HTTP_HEADERS_SENT\<close> out of the handler. If nothing was written, the call
  writes to the destroyed connection and the client gets no response. So what a request
  brings is one of three things.
\<close>

datatype piping = Piped | Broke nat
  \<comment> \<open>\<open>await pipeline(...)\<close> returns, or it throws after that many bytes of the body
      were written to \<open>res\<close>\<close>

datatype delivery =
    Sent response
      \<comment> \<open>the response is sent in full\<close>
  | Cut response error
      \<comment> \<open>the head and a part of the body are sent, then the connection is destroyed and
          the exception leaves the handler\<close>
  | Destroyed
      \<comment> \<open>the connection is destroyed before anything is sent\<close>

text \<open>
  \<open>origin url r\<close> is what the request to \<open>url\<close> with the Range header \<open>r\<close> brings,
  \<open>pipe\<close> is how \<open>await pipeline(...)\<close> ends.
\<close>

definition stream_proxy :: "variant \<Rightarrow> (string \<Rightarrow> bool) \<Rightarrow> (string \<Rightarrow> string option \<Rightarrow> fetched)
    \<Rightarrow> piping \<Rightarrow> string option \<Rightarrow> string option \<Rightarrow> delivery" where
  "stream_proxy v valid_url origin pipe url rng =
     (if \<not> truthy url then Sent missing_url
      else if \<not> valid_url (the url) then Sent invalid_url
      else
        (case origin (the url) (if truthy rng then rng else None) of
           NoResponse \<Rightarrow>
             Sent \<lparr>statusCode = 502, headers = [], body = json_error ''stream failed''\<rparr>
         | Fetched up \<Rightarrow>
             if upstream_refused v (o_status up)
             then Sent \<lparr>statusCode = 502, headers = [],
                        body = json_error (''upstream '' @ toString (int (o_status up)))\<rparr>
             else
               (let staged = \<lparr>statusCode = (if o_status up = 206 then 206 else 200),
                              headers = staged_headers v up, body = o_body up\<rparr>
                in case pipe of
                     Piped \<Rightarrow> Sent staged
                   | Broke n \<Rightarrow>
                       if n = 0 then Destroyed
                       else Cut (staged\<lparr>body := take n (o_body up)\<rparr>) ERR_HTTP_HEADERS_SENT)))"

section \<open>Example data\<close>

definition ex_entry :: entry where
  "ex_entry =
     \<lparr>entry_id = ''0a1b2c3d4e5f'', source = Some ''http://x/a.mp4'', status = Ready,
      path = Some ''data/0a1b2c3d4e5f'', entry_size = Some 10, addedAt = Some 1000,
      lastAccess = Some 2000, error = None\<rparr>"

definition ex_pending :: entry where
  \<comment> \<open>an entry as \<open>/add\<close> leaves it\<close>
  "ex_pending =
     \<lparr>entry_id = ''111111111111'', source = Some ''http://x/b.mp4'', status = Downloading,
      path = None, entry_size = None, addedAt = Some 1500, lastAccess = None, error = None\<rparr>"

definition ex_fs :: filesys where
  "ex_fs =
     \<lparr>links = [''data/0a1b2c3d4e5f'' \<mapsto> 0], inodes = (\<lambda>_. [])(0 := ''abcdefghij''),
      next_ino = 1\<rparr>"

definition ex_state :: state where
  "ex_state =
     \<lparr>videos = [(''0a1b2c3d4e5f'', ex_entry), (''111111111111'', ex_pending)], fs = ex_fs,
      metadata = None, console = []\<rparr>"

definition ex_download :: state where
  \<comment> \<open>a download whose body has arrived in full, before the rename\<close>
  "ex_download =
     \<lparr>videos = [(''111111111111'', ex_pending)],
      fs = \<lparr>links = [''data/111111111111.part'' \<mapsto> 0], inodes = (\<lambda>_. [])(0 := ''abcdefghij''),
            next_ino = 1\<rparr>,
      metadata = None, console = []\<rparr>"

definition ex_origin :: "string \<Rightarrow> string \<Rightarrow> string option \<Rightarrow> fetched" where
  \<comment> \<open>an origin that answers every request 206 with the given Content-Range\<close>
  "ex_origin cr url r =
     Fetched \<lparr>o_status = 206, o_headers = [''content-range'' \<mapsto> cr, ''content-length'' \<mapsto> ''10''],
              o_body = ''abcdefghij''\<rparr>"

definition race :: "event list" where
  \<comment> \<open>two calls of \<open>/add\<close> for one URL within one millisecond, then their downloads
      interleaved\<close>
  "race =
     [Add True 1700000000000 1700000000000 (Some ''http://x/a.mp4''),
      Add True 1700000000000 1700000000000 (Some ''http://x/a.mp4''),
      Response 0 (Head 200 [''ab'', ''cd'']) True True,
      Chunk 0,
      Response 1 (Head 200 [''ab'', ''cd'']) True True,
      Chunk 0,
      Finish 0 True True 1700000000900]"

definition ex_sha1 :: "string \<Rightarrow> string" where
  \<comment> \<open>a stand-in digest of 40 characters, to run a trace on\<close>
  "ex_sha1 s = (if s = [] then replicate 40 (CHR ''0'') else last s # replicate 39 (CHR ''0''))"

definition ex_trace :: "event list" where
  "ex_trace =
     [Add True 1 1 (Some ''http://x/a.mp4''),
      Add True 2 2 (Some ''http://x/a.mp4''),
      Response 0 (Head 200 [''ab'', ''cd'']) True True,
      Chunk 0,
      Response 1 (Head 200 [''ab'', ''cd'']) True True,
      Chunk 0,
      Finish 0 True True 900]"

definition ex_promoted :: entry where
  "ex_promoted =
     \<lparr>entry_id = ''100000000000'', source = Some ''http://x/a.mp4'', status = Ready,
      path = Some ''data/100000000000'', entry_size = Some 4, addedAt = Some 1,
      lastAccess = Some 900, error = None\<rparr>"

section \<open>Properties\<close>

lemma persist_videos: "videos (fst (persist v wok s)) = videos s"
  by (cases v) (simp_all add: persist_def)

lemma persist_fs: "fs (fst (persist v wok s)) = fs s"
  by (cases v) (simp_all add: persist_def)

lemma round_double_nonneg: "0 \<le> n \<Longrightarrow> 0 \<le> round_double n"
  by (auto simp: round_double_def Let_def pos_imp_zdiv_nonneg_iff)

lemma to_number_safe: "\<bar>n\<bar> \<le> 2 ^ 53 \<Longrightarrow> to_number n = Num n"
  by (simp add: to_number_def)

lemma to_number_nonneg: "0 \<le> n \<Longrightarrow> to_number n = Num a \<Longrightarrow> 0 \<le> a"
  using round_double_nonneg [of n] by (auto simp: to_number_def Let_def split: if_splits)

lemma serve_file_not_404: "serve_file rng content = Responded r \<Longrightarrow> statusCode r \<noteq> 404"
  by (auto simp: serve_file_def Let_def split: if_splits sum.splits)

lemma stream_absent:
  "map_of (videos s) vid = None \<Longrightarrow> stream v wok now vid rng s = (s, Responded not_cached)"
  by (simp add: stream_def)

lemma stream_not_ready:
  "map_of (videos s) vid = Some info \<Longrightarrow>
   \<not> truthy (path info) \<or> \<not> existsSync (fs s) (the (path info)) \<Longrightarrow>
   stream v wok now vid rng s = (s, Responded not_cached)"
  by (auto simp: stream_def)

lemma stream_cached:
  assumes "map_of (videos s) vid = Some info" "truthy (path info)"
    and "existsSync (fs s) (the (path info))"
  shows "snd (stream v wok now vid rng s) =
     (if v = MF \<and> \<not> wok then Threw WriteFailed
      else serve_file rng (readFile (fs s) (the (path info))))"
  using assms by (cases v) (simp_all add: stream_def persist_def Let_def)

lemma not_cached_404: "statusCode not_cached = 404"
  by (simp add: not_cached_def)

lemma split_nonempty: "split d s \<noteq> []"
  by (induction s) (auto split: list.splits)

lemma split_no_sep: "p \<in> set (split d s) \<Longrightarrow> d \<notin> set p"
  by (induction s arbitrary: p) (auto split: list.splits if_splits)

lemma digits_value_nonneg:
  "\<forall>c \<in> set ds. is_digit c \<Longrightarrow> 0 \<le> a \<Longrightarrow> 0 \<le> foldl (\<lambda>a c. 10 * a + digit_val c) a ds"
  by (induction ds arbitrary: a) (auto simp: is_digit_def digit_val_def)

lemma parseInt_nonneg:
  assumes "CHR ''-'' \<notin> set s" and "parseInt s = Num n"
  shows "0 \<le> n"
proof -
  let ?t = "dropWhile is_ws s"
  have "set ?t \<subseteq> set s" by (auto dest: set_dropWhileD)
  with assms(1) have "\<not> (?t \<noteq> [] \<and> hd ?t = CHR ''-'')"
    by (cases ?t) auto
  moreover have "\<forall>c \<in> set (takeWhile is_digit u). is_digit c" for u
    by (auto dest: set_takeWhileD)
  ultimately show ?thesis
    using assms(2) digits_value_nonneg [of _ 0]
    by (auto simp: parseInt_def Let_def split: if_splits intro: to_number_nonneg)
qed

lemma range_start_nonneg: "range_start r = Num a \<Longrightarrow> 0 \<le> a"
proof -
  assume h: "range_start r = Num a"
  have "hd (split CHR ''-'' (replace_first ''bytes='' r)) \<in> set (split CHR ''-'' (replace_first ''bytes='' r))"
    by (simp add: split_nonempty)
  then have "CHR ''-'' \<notin> set (hd (split CHR ''-'' (replace_first ''bytes='' r)))"
    by (rule split_no_sep)
  with h show ?thesis unfolding range_start_def by (auto intro: parseInt_nonneg)
qed

lemma range_end_nonneg:
  assumes "range_end r T = Num b" and "0 \<le> T"
  shows "- 1 \<le> b"
proof (cases "truthy (index1 (split CHR ''-'' (replace_first ''bytes='' r)))")
  case True
  then obtain p where p: "index1 (split CHR ''-'' (replace_first ''bytes='' r)) = Some p"
    by (auto simp: truthy_def split: option.splits)
  then have "p \<in> set (split CHR ''-'' (replace_first ''bytes='' r))"
    by (auto simp: index1_def split: list.splits)
  then have "CHR ''-'' \<notin> set p" by (rule split_no_sep)
  moreover from True p assms(1) have "parseInt p = Num b"
    by (simp add: range_end_def Let_def)
  ultimately have "0 \<le> b" by (auto intro: parseInt_nonneg)
  then show ?thesis by simp
next
  case False
  then have b: "to_number (T - 1) = Num b"
    using assms(1) by (simp add: range_end_def Let_def)
  show ?thesis
  proof (cases "T = 0")
    case True
    with b show ?thesis by (simp add: to_number_def)
  next
    case False
    with assms(2) have "0 \<le> T - 1" by simp
    then have "0 \<le> b" using b by (rule to_number_nonneg)
    then show ?thesis by simp
  qed
qed

lemma digit_char_props:
  assumes "d < 10"
  shows "is_digit (digit_char d)" and "digit_val (digit_char d) = int d"
  using assms by (simp_all add: is_digit_def digit_val_def digit_char_def)

lemma digits_are_digits: "c \<in> set (digits n) \<Longrightarrow> is_digit c"
proof (induction n arbitrary: c rule: digits.induct)
  case (1 n)
  then show ?case
    by (subst (asm) (2) digits.simps) (auto simp: digit_char_props split: if_splits)
qed

lemma digits_nonempty: "digits n \<noteq> []"
  by (subst digits.simps) simp

lemma digits_value: "foldl (\<lambda>a c. 10 * a + digit_val c) 0 (digits n) = int n"
proof (induction n rule: digits.induct)
  case (1 n)
  show ?case
  proof (cases "n < 10")
    case True
    then show ?thesis by (subst digits.simps) (simp add: digit_char_props)
  next
    case False
    then have "foldl (\<lambda>a c. 10 * a + digit_val c) 0 (digits n) =
        10 * int (n div 10) + int (n mod 10)"
      using "1.IH" by (subst digits.simps) (simp add: digit_char_props)
    moreover have "10 * int (n div 10) + int (n mod 10) = int n"
      by presburger
    ultimately show ?thesis by simp
  qed
qed

lemma digit_not_ws: "is_digit c \<Longrightarrow> \<not> is_ws c"
  by (auto simp: is_digit_def is_ws_def)

lemma digit_not_sign: "is_digit c \<Longrightarrow> c \<noteq> CHR ''-'' \<and> c \<noteq> CHR ''+''"
  by (auto simp: is_digit_def)

lemma parseInt_digits:
  assumes "rest = [] \<or> \<not> is_digit (hd rest)"
  shows "parseInt (digits n @ rest) = to_number (int n)"
proof -
  obtain c cs where d: "digits n = c # cs" using digits_nonempty [of n] by (cases "digits n") auto
  have c: "is_digit c" using digits_are_digits [of c n] d by simp
  have all: "\<forall>x \<in> set (digits n). is_digit x" using digits_are_digits by blast
  have tw: "takeWhile is_digit (digits n @ rest) = digits n"
  proof (cases rest)
    case Nil
    then show ?thesis using all by (simp add: takeWhile_eq_all_conv)
  next
    case (Cons r rs)
    with assms have "\<not> is_digit r" by simp
    then show ?thesis using all Cons by (simp add: takeWhile_append2)
  qed
  have dw: "dropWhile is_ws (digits n @ rest) = digits n @ rest"
    using c d by (simp add: digit_not_ws)
  show ?thesis
    unfolding parseInt_def dw
    using digit_not_sign [OF c] d tw digits_value [of n] digits_nonempty [of n]
    by (simp add: Let_def)
qed

lemma split_plain: "d \<notin> set s \<Longrightarrow> split d s = [s]"
  by (induction s) auto

lemma split_at: "d \<notin> set xs \<Longrightarrow> split d (xs @ d # ys) = xs # split d ys"
  by (induction xs) auto

lemma toString_nonneg: "0 \<le> a \<Longrightarrow> toString a = digits (nat a)"
  by (simp add: toString_def)

lemma dash_not_digit: "CHR ''-'' \<notin> set (digits n)"
  using digits_are_digits [of "CHR ''-''" n] by (auto simp: is_digit_def)

text \<open>
  Every header of the form \<open>bytes=a-b\<close> or \<open>bytes=a-\<close>, with the numbers written in
  decimal, parses to the Numbers for its numbers, which are the numbers themselves up to
  \<open>2 ^ 53\<close>; the open end is \<open>T - 1\<close>.
\<close>

lemma range_canonical:
  assumes "0 \<le> a" and "0 \<le> b"
  shows "range_start (''bytes='' @ toString a @ ''-'' @ toString b) = to_number a"
    and "range_end (''bytes='' @ toString a @ ''-'' @ toString b) T = to_number b"
    and "range_start (''bytes='' @ toString a @ ''-'') = to_number a"
    and "range_end (''bytes='' @ toString a @ ''-'') T = to_number (T - 1)"
proof -
  have sp: "split CHR ''-'' (digits (nat a) @ CHR ''-'' # digits (nat b)) =
      [digits (nat a), digits (nat b)]"
    by (simp add: split_at split_plain dash_not_digit)
  have sp': "split CHR ''-'' (digits (nat a) @ [CHR ''-'']) = [digits (nat a), []]"
    using split_at [of "CHR ''-''" "digits (nat a)" "[]"] by (simp add: dash_not_digit)
  have pa: "parseInt (digits (nat a)) = to_number a"
    using parseInt_digits [of "[]" "nat a"] assms(1) by simp
  have pb: "parseInt (digits (nat b)) = to_number b"
    using parseInt_digits [of "[]" "nat b"] assms(2) by simp
  show "range_start (''bytes='' @ toString a @ ''-'' @ toString b) = to_number a"
    using assms by (simp add: range_start_def toString_nonneg sp pa)
  show "range_end (''bytes='' @ toString a @ ''-'' @ toString b) T = to_number b"
    using assms by (simp add: range_end_def toString_nonneg sp pb index1_def truthy_def digits_nonempty)
  show "range_start (''bytes='' @ toString a @ ''-'') = to_number a"
    using assms by (simp add: range_start_def toString_nonneg sp' pa)
  show "range_end (''bytes='' @ toString a @ ''-'') T = to_number (T - 1)"
    using assms by (simp add: range_end_def toString_nonneg sp' index1_def truthy_def)
qed

lemma chunkSize_safe:
  assumes "0 \<le> a" and "a \<le> b" and "b \<le> MAX_SAFE_INTEGER"
  shows "num_plus (num_minus (Num b) (Num a)) (Num 1) = Num (b - a + 1)"
proof -
  have "\<bar>- a + b\<bar> \<le> 2 ^ 53" and "\<bar>b - a + 1\<bar> \<le> 2 ^ 53"
    using assms by (simp_all add: MAX_SAFE_INTEGER_def)
  then show ?thesis
    using assms by (simp add: num_minus_def to_number_safe add.commute)
qed

lemma serve_file_206:
  assumes "truthy rng" and "range_start (the rng) = Num a"
    and "range_end (the rng) (int (length content)) = Num b" and "a \<le> b"
    and "b \<le> MAX_SAFE_INTEGER"
  shows "serve_file rng content =
     Responded
       \<lparr>statusCode = 206,
        headers =
          [(''Content-Range'',
              ''bytes '' @ toString a @ ''-'' @ toString b @ ''/'' @ toString (int (length content))),
           (''Accept-Ranges'', ''bytes''),
           (''Content-Length'', toString (b - a + 1)),
           (''Content-Type'', ''video/mp4''),
           (''Cache-Control'', ''no-store'')],
        body = read_slice content a b\<rparr>"
proof -
  have a: "0 \<le> a" using assms(2) by (rule range_start_nonneg)
  have "createReadStream content (Num a) (Num b) = Inr (read_slice content a b)"
    using a assms(4,5) by (simp add: createReadStream_def)
  then show ?thesis
    using assms a by (simp add: serve_file_def Let_def chunkSize_safe number_toString_def)
qed

lemma serve_file_416:
  assumes "truthy rng"
    and "range_start (the rng) = NaN \<or> range_end (the rng) (int (length content)) = NaN \<or>
         num_gt (range_start (the rng)) (range_end (the rng) (int (length content)))"
  shows "serve_file rng content =
     Responded \<lparr>statusCode = 416, headers = [], body = ''Requested Range Not Satisfiable''\<rparr>"
  using assms by (auto simp add: serve_file_def Let_def)

lemma serve_file_out_of_range:
  assumes "truthy rng" and "range_start (the rng) = Num a"
    and "range_end (the rng) (int (length content)) = Num b" and "a \<le> b"
    and "MAX_SAFE_INTEGER < b"
  shows "serve_file rng content = Threw ERR_OUT_OF_RANGE"
  using assms by (simp add: serve_file_def Let_def createReadStream_def)

lemma length_read_slice:
  "0 \<le> a \<Longrightarrow> a \<le> b \<Longrightarrow>
   int (length (read_slice content a b)) = min (b - a + 1) (max 0 (int (length content) - a))"
  by (auto simp: read_slice_def min_def max_def)

text \<open>
  C2. A request with a Range header for a cached file of \<open>T\<close> bytes, whose bounds parse
  to \<open>start\<close> and \<open>end\<close> with \<open>0 \<le> start \<le> end < T\<close>, is answered 206 with
  \<open>Content-Range: bytes start-end/T\<close>, \<open>Content-Length: end-start+1\<close> and
  \<open>Accept-Ranges: bytes\<close>, and the body is the \<open>end-start+1\<close> bytes of that window.
  The handler reaches the Range header after \<open>persist()\<close>: in mainframe\_server that
  call throws when the write fails (see C5), so there the header is parsed when the write
  succeeds.
\<close>

theorem stream_range_206:
  assumes "map_of (videos s) vid = Some info" and "truthy (path info)"
    and "existsSync (fs s) (the (path info))"
    and "content = readFile (fs s) (the (path info))" and "T = int (length content)"
    and "T \<le> MAX_SAFE_INTEGER"
    and "truthy rng" and "range_start (the rng) = Num start"
    and "range_end (the rng) T = Num end"
    and "0 \<le> start" and "start \<le> end" and "end < T"
    and "v = MF \<longrightarrow> wok"
  shows "snd (stream v wok now vid rng s) =
     Responded
       \<lparr>statusCode = 206,
        headers =
          [(''Content-Range'',
              ''bytes '' @ toString start @ ''-'' @ toString end @ ''/'' @ toString T),
           (''Accept-Ranges'', ''bytes''),
           (''Content-Length'', toString (end - start + 1)),
           (''Content-Type'', ''video/mp4''),
           (''Cache-Control'', ''no-store'')],
        body = read_slice content start end\<rparr> \<and>
     int (length (read_slice content start end)) = end - start + 1"
proof -
  have "snd (stream v wok now vid rng s) = serve_file rng content"
    using assms stream_cached [of s vid info v wok now rng] by auto
  moreover have "int (length (read_slice content start end)) = end - start + 1"
    using assms by (simp add: length_read_slice)
  moreover have "end \<le> MAX_SAFE_INTEGER"
    using assms by simp
  ultimately show ?thesis
    using assms serve_file_206 [of rng start content "end"] by simp
qed

lemma ex_parse:
  "range_start ''bytes=2-4'' = Num 2" "range_end ''bytes=2-4'' 10 = Num 4"
  "toString 2 = ''2''" "toString 3 = ''3''" "toString 4 = ''4''" "toString 10 = ''10''"
  by code_simp+

lemma ex_lookup:
  "map_of (videos ex_state) ''0a1b2c3d4e5f'' = Some ex_entry"
  "map_of (videos ex_state) ''111111111111'' = Some ex_pending"
  "path ex_entry = Some ''data/0a1b2c3d4e5f''"
  "existsSync (fs ex_state) ''data/0a1b2c3d4e5f''"
  "readFile (fs ex_state) ''data/0a1b2c3d4e5f'' = ''abcdefghij''"
  by (simp_all add: ex_state_def ex_entry_def ex_fs_def existsSync_def readFile_def)

theorem stream_range_206_witness:
  "snd (stream MF True 5000 ''0a1b2c3d4e5f'' (Some ''bytes=2-4'') ex_state) =
     Responded
       \<lparr>statusCode = 206,
        headers =
          [(''Content-Range'', ''bytes 2-4/10''),
           (''Accept-Ranges'', ''bytes''),
           (''Content-Length'', ''3''),
           (''Content-Type'', ''video/mp4''),
           (''Cache-Control'', ''no-store'')],
        body = ''cde''\<rparr>"
  using stream_range_206 [of ex_state "''0a1b2c3d4e5f''" ex_entry "''abcdefghij''" 10
      "Some ''bytes=2-4''" 2 4 MF True 5000]
  by (simp add: ex_lookup truthy_def MAX_SAFE_INTEGER_def ex_parse read_slice_def)

text \<open>
  C9, as amended. When the bounds parse, \<open>start \<le> end\<close>, \<open>start < T \<le> end\<close> and
  \<open>end\<close> is at most \<open>MAX_SAFE_INTEGER\<close>, the answer is still 206 and declares
  \<open>Content-Range: bytes start-end/T\<close> and \<open>Content-Length: end-start+1\<close>, although
  the file has only \<open>T - start\<close> bytes from \<open>start\<close> on, which is what the body
  holds: the end bound is neither clamped nor refused.
\<close>

theorem stream_range_end_not_clamped:
  assumes "map_of (videos s) vid = Some info" and "truthy (path info)"
    and "existsSync (fs s) (the (path info))"
    and "content = readFile (fs s) (the (path info))" and "T = int (length content)"
    and "truthy rng" and rs: "range_start (the rng) = Num start"
    and "range_end (the rng) T = Num end"
    and "start \<le> end" and "start < T" and "T \<le> end"
    and "end \<le> MAX_SAFE_INTEGER"
    and "v = MF \<longrightarrow> wok"
  shows "snd (stream v wok now vid rng s) =
     Responded
       \<lparr>statusCode = 206,
        headers =
          [(''Content-Range'',
              ''bytes '' @ toString start @ ''-'' @ toString end @ ''/'' @ toString T),
           (''Accept-Ranges'', ''bytes''),
           (''Content-Length'', toString (end - start + 1)),
           (''Content-Type'', ''video/mp4''),
           (''Cache-Control'', ''no-store'')],
        body = drop (nat start) content\<rparr> \<and>
     int (length (drop (nat start) content)) = T - start \<and>
     T - start < end - start + 1"
proof -
  have "snd (stream v wok now vid rng s) = serve_file rng content"
    using assms stream_cached [of s vid info v wok now rng] by auto
  moreover have nonneg: "0 \<le> start"
    using rs by (rule range_start_nonneg)
  moreover have "read_slice content start end = drop (nat start) content"
    using assms by (simp add: read_slice_def)
  moreover have "int (length (drop (nat start) content)) = T - start"
    using assms nonneg by simp
  ultimately show ?thesis
    using assms serve_file_206 [of rng start content "end"] by simp
qed

lemma ex_parse2:
  "range_start ''bytes=5-20'' = Num 5" "range_end ''bytes=5-20'' 10 = Num 20"
  "toString 5 = ''5''" "toString 20 = ''20''" "toString 16 = ''16''"
  by code_simp+

theorem stream_range_end_not_clamped_witness:
  "snd (stream VPS False 5000 ''0a1b2c3d4e5f'' (Some ''bytes=5-20'') ex_state) =
     Responded
       \<lparr>statusCode = 206,
        headers =
          [(''Content-Range'', ''bytes 5-20/10''),
           (''Accept-Ranges'', ''bytes''),
           (''Content-Length'', ''16''),
           (''Content-Type'', ''video/mp4''),
           (''Cache-Control'', ''no-store'')],
        body = ''fghij''\<rparr>"
  using stream_range_end_not_clamped [of ex_state "''0a1b2c3d4e5f''" ex_entry "''abcdefghij''" 10
      "Some ''bytes=5-20''" 5 20 VPS False 5000]
  by (simp add: ex_lookup truthy_def MAX_SAFE_INTEGER_def ex_parse ex_parse2)

lemma ex_parse4:
  "range_start ''bytes=5-9007199254740992'' = Num 5"
  "range_end ''bytes=5-9007199254740992'' 10 = Num 9007199254740992"
  "range_end ''bytes=5-9007199254740993'' 10 = Num 9007199254740992"
  by code_simp+

text \<open>
  C9 as the specification states it fails from \<open>end = 2 ^ 53\<close> on. On a file of 10
  bytes, \<open>bytes=5-9007199254740992\<close> has \<open>start \<le> end\<close> and \<open>start < T \<le> end\<close>;
  the handler stages the 206 head, then \<open>fs.createReadStream\<close> throws
  \<open>ERR_OUT_OF_RANGE\<close> and the exception leaves the handler: no 206 is sent.
\<close>

theorem stream_range_end_not_clamped_counterexample:
  "range_start ''bytes=5-9007199254740992'' = Num 5 \<and>
   range_end ''bytes=5-9007199254740992'' 10 = Num 9007199254740992 \<and>
   snd (stream VPS True 5000 ''0a1b2c3d4e5f'' (Some ''bytes=5-9007199254740992'') ex_state) =
     Threw ERR_OUT_OF_RANGE"
proof -
  have "snd (stream VPS True 5000 ''0a1b2c3d4e5f'' rng ex_state) =
      serve_file rng ''abcdefghij''" for rng
    using stream_cached [of ex_state "''0a1b2c3d4e5f''" ex_entry VPS True 5000 rng]
    by (simp add: ex_lookup truthy_def)
  moreover have "serve_file (Some ''bytes=5-9007199254740992'') ''abcdefghij'' =
      Threw ERR_OUT_OF_RANGE"
    using serve_file_out_of_range [of "Some ''bytes=5-9007199254740992''" 5 "''abcdefghij''"
        9007199254740992]
    by (simp add: truthy_def ex_parse4 MAX_SAFE_INTEGER_def)
  ultimately show ?thesis by (simp add: ex_parse4)
qed

text \<open>
  C1, as amended. For a Range header parsed against a file of \<open>T\<close> bytes: when the start
  or the end does not parse to a number, or \<open>start > end\<close> holds of the Numbers they
  parse to, the answer is 416 and its body is the text
  \<open>Requested Range Not Satisfiable\<close>. (Nothing is said here of \<open>start \<ge> T\<close> with
  \<open>start \<le> end\<close>.)
\<close>

theorem stream_range_416:
  assumes "map_of (videos s) vid = Some info" and "truthy (path info)"
    and "existsSync (fs s) (the (path info))"
    and "T = int (length (readFile (fs s) (the (path info))))"
    and "truthy rng"
    and "range_start (the rng) = NaN \<or> range_end (the rng) T = NaN \<or>
         num_gt (range_start (the rng)) (range_end (the rng) T)"
    and "v = MF \<longrightarrow> wok"
  shows "snd (stream v wok now vid rng s) =
     Responded \<lparr>statusCode = 416, headers = [], body = ''Requested Range Not Satisfiable''\<rparr>"
proof -
  have "snd (stream v wok now vid rng s) = serve_file rng (readFile (fs s) (the (path info)))"
    using assms stream_cached [of s vid info v wok now rng] by auto
  then show ?thesis
    using assms serve_file_416 [of rng "readFile (fs s) (the (path info))"] by auto
qed

lemma ex_parse3:
  "range_start ''bytes=5-2'' = Num 5" "range_end ''bytes=5-2'' 10 = Num 2"
  "range_start ''bytes=10-20'' = Num 10" "range_end ''bytes=10-20'' 10 = Num 20"
  "range_start ''bytes=x-3'' = NaN"
  "toString 11 = ''11''"
  by code_simp+

theorem stream_range_416_witness:
  "snd (stream VPS True 5000 ''0a1b2c3d4e5f'' (Some ''bytes=x-3'') ex_state) =
     Responded \<lparr>statusCode = 416, headers = [], body = ''Requested Range Not Satisfiable''\<rparr>"
  using stream_range_416 [of ex_state "''0a1b2c3d4e5f''" ex_entry 10 "Some ''bytes=x-3''"
      VPS True 5000]
  by (simp add: ex_lookup truthy_def ex_parse3)

text \<open>
  C1 as the specification states it fails twice on a file of 10 bytes: \<open>bytes=5-2\<close> is
  answered 416 with a body that is not empty, and \<open>bytes=10-20\<close>, where
  \<open>start \<ge> T\<close>, is answered 206.
\<close>

theorem stream_range_416_counterexample:
  "snd (stream VPS True 5000 ''0a1b2c3d4e5f'' (Some ''bytes=5-2'') ex_state) =
     Responded \<lparr>statusCode = 416, headers = [], body = ''Requested Range Not Satisfiable''\<rparr> \<and>
   snd (stream VPS True 5000 ''0a1b2c3d4e5f'' (Some ''bytes=10-20'') ex_state) =
     Responded
       \<lparr>statusCode = 206,
        headers =
          [(''Content-Range'', ''bytes 10-20/10''),
           (''Accept-Ranges'', ''bytes''),
           (''Content-Length'', ''11''),
           (''Content-Type'', ''video/mp4''),
           (''Cache-Control'', ''no-store'')],
        body = []\<rparr>"
proof -
  have hit: "snd (stream VPS True 5000 ''0a1b2c3d4e5f'' rng ex_state) =
      serve_file rng ''abcdefghij''" for rng
    using stream_cached [of ex_state "''0a1b2c3d4e5f''" ex_entry VPS True 5000 rng]
    by (simp add: ex_lookup truthy_def)
  have "serve_file (Some ''bytes=5-2'') ''abcdefghij'' =
      Responded \<lparr>statusCode = 416, headers = [], body = ''Requested Range Not Satisfiable''\<rparr>"
    using serve_file_416 [of "Some ''bytes=5-2''" "''abcdefghij''"]
    by (simp add: truthy_def ex_parse3)
  moreover have "serve_file (Some ''bytes=10-20'') ''abcdefghij'' =
      Responded
       \<lparr>statusCode = 206,
        headers =
          [(''Content-Range'', ''bytes 10-20/10''),
           (''Accept-Ranges'', ''bytes''),
           (''Content-Length'', ''11''),
           (''Content-Type'', ''video/mp4''),
           (''Cache-Control'', ''no-store'')],
        body = []\<rparr>"
    using serve_file_206 [of "Some ''bytes=10-20''" 10 "''abcdefghij''" 20]
    by (simp add: truthy_def ex_parse ex_parse2 ex_parse3 read_slice_def MAX_SAFE_INTEGER_def)
  ultimately show ?thesis by (simp add: hit)
qed

lemma cleanup_entry_videos:
  "videos (cleanup_entry now m locked s (k, e)) =
     (if stale now m e then filter (\<lambda>(k', _). k' \<noteq> k) (videos s) else videos s)"
  by (auto simp: cleanup_entry_def stale_def AList.delete_eq intro: filter_cong)

lemma cleanup_loop_videos:
  "videos (foldl (cleanup_entry now m locked) s xs) =
     filter (\<lambda>(k, _). \<forall>e. (k, e) \<in> set xs \<longrightarrow> \<not> stale now m e) (videos s)"
proof (induction xs arbitrary: s)
  case Nil
  then show ?case by simp
next
  case (Cons x xs)
  obtain k e where x: "x = (k, e)" by (cases x)
  show ?case
    unfolding x foldl_Cons Cons.IH cleanup_entry_videos
    by (auto intro: filter_cong)
qed

lemma unlinkSync_links:
  "links (fst (unlinkSync locked fsys p)) q =
     (if q = p \<and> \<not> locked p then None else links fsys q)"
  by (auto simp: unlinkSync_def)

lemma cleanup_entry_links:
  "links (fs (cleanup_entry now m locked s (k, e))) q =
     (if stale now m e \<and> q = the (path e) \<and> \<not> locked q then None else links (fs s) q)"
  by (auto simp: cleanup_entry_def stale_def unlinkSync_links)

lemma cleanup_loop_links:
  "links (fs (foldl (cleanup_entry now m locked) s xs)) q =
     (if \<exists>k e. (k, e) \<in> set xs \<and> stale now m e \<and> q = the (path e) \<and> \<not> locked q
      then None else links (fs s) q)"
proof (induction xs arbitrary: s)
  case Nil
  then show ?case by simp
next
  case (Cons x xs)
  obtain k e where x: "x = (k, e)" by (cases x)
  show ?case
    unfolding x foldl_Cons Cons.IH cleanup_entry_links
    by auto
qed

lemma cleanup_videos:
  "videos (fst (cleanup v wok now m locked s)) =
     filter (\<lambda>(k, _). \<forall>e. (k, e) \<in> set (videos s) \<longrightarrow> \<not> stale now m e) (videos s)"
  by (simp add: cleanup_def persist_videos cleanup_loop_videos)

lemma cleanup_links:
  "links (fs (fst (cleanup v wok now m locked s))) q =
     (if \<exists>k e. (k, e) \<in> set (videos s) \<and> stale now m e \<and> q = the (path e) \<and> \<not> locked q
      then None else links (fs s) q)"
  by (simp add: cleanup_def persist_fs cleanup_loop_links)

lemma cleanup_throws:
  "snd (cleanup v wok now m locked s) = (if v = MF \<and> \<not> wok then Some WriteFailed else None)"
  by (cases v) (simp_all add: cleanup_def persist_def)

lemma map_of_filter_out:
  "\<not> P k \<Longrightarrow> map_of (filter (\<lambda>(k', _). P k') xs) k = None"
  by (induction xs) auto

text \<open>
  C7. One run of the cleanup task removes from the store every entry that has a path and
  whose \<open>now - (lastAccess || addedAt || 0)\<close> exceeds the threshold, and unlinks its file.
  An exception of \<open>unlinkSync\<close> is dropped: the entry goes whether the file could be
  removed or not, the file is gone unless the removal was refused, and the only
  exception that can leave the task is that of \<open>persist()\<close> in mainframe\_server.
  \<open>/stream/:id\<close> on the state the task leaves answers 404 for that id.
\<close>

theorem cleanup_evicts:
  assumes "map_of (videos s) vid = Some info" and "truthy (path info)"
    and "now - last_of info > INACTIVITY_MINUTES * 60 * 1000"
    and "s' = fst (cleanup v wok now INACTIVITY_MINUTES locked s)"
  shows "map_of (videos s') vid = None \<and>
     (\<not> locked (the (path info)) \<longrightarrow> \<not> existsSync (fs s') (the (path info))) \<and>
     snd (cleanup v wok now INACTIVITY_MINUTES locked s) =
       (if v = MF \<and> \<not> wok then Some WriteFailed else None) \<and>
     stream v wok' now' vid rng s' = (s', Responded not_cached)"
proof -
  have mem: "(vid, info) \<in> set (videos s)"
    using assms(1) by (rule map_of_SomeD)
  have st: "stale now INACTIVITY_MINUTES info"
    using assms by (simp add: stale_def)
  have gone: "map_of (videos s') vid = None"
    unfolding assms(4) cleanup_videos
    using mem st by (intro map_of_filter_out) auto
  moreover have "\<not> locked (the (path info)) \<longrightarrow> \<not> existsSync (fs s') (the (path info))"
    unfolding assms(4) existsSync_def cleanup_links
    using mem st by auto
  moreover note cleanup_throws
  moreover have "stream v wok' now' vid rng s' = (s', Responded not_cached)"
    using gone by (rule stream_absent)
  ultimately show ?thesis by simp
qed

lemma ex_last: "last_of ex_entry = 2000"
  by (simp add: last_of_def num_or_def ex_entry_def)

theorem cleanup_evicts_witness:
  "map_of (videos (fst (cleanup MF False 5000000 60 (\<lambda>_. True) ex_state))) ''0a1b2c3d4e5f'' = None \<and>
   snd (cleanup MF False 5000000 60 (\<lambda>_. True) ex_state) = Some WriteFailed \<and>
   stream MF True 5000001 ''0a1b2c3d4e5f'' None
       (fst (cleanup MF False 5000000 60 (\<lambda>_. True) ex_state)) =
     (fst (cleanup MF False 5000000 60 (\<lambda>_. True) ex_state), Responded not_cached)"
  using cleanup_evicts [where s = ex_state and vid = "''0a1b2c3d4e5f''" and info = ex_entry
      and now = 5000000 and INACTIVITY_MINUTES = 60 and v = MF and wok = False
      and locked = "\<lambda>_. True" and wok' = True and now' = 5000001 and rng = None
      and s' = "fst (cleanup MF False 5000000 60 (\<lambda>_. True) ex_state)"]
  by (simp add: ex_lookup ex_last truthy_def)

lemma cleanup_keeps:
  assumes "distinct (map fst (videos s))" and "map_of (videos s) vid = Some info"
    and "\<not> truthy (path info)"
  shows "distinct (map fst (videos (fst (cleanup v wok now m locked s)))) \<and>
     map_of (videos (fst (cleanup v wok now m locked s))) vid = Some info"
proof -
  have "e = info" if "(vid, e) \<in> set (videos s)" for e
    using that assms(1,2) by simp
  then have "\<forall>e. (vid, e) \<in> set (videos s) \<longrightarrow> \<not> stale now m e"
    using assms(3) by (auto simp: stale_def)
  then have "map_of (videos (fst (cleanup v wok now m locked s))) vid = Some info"
    unfolding cleanup_videos using assms(2)
    by (intro map_of_filter_in) auto
  moreover have "distinct (map fst (videos (fst (cleanup v wok now m locked s))))"
    unfolding cleanup_videos using assms(1) by (rule distinct_map_filter)
  ultimately show ?thesis by simp
qed

text \<open>
  C10. The cleanup task never removes an entry without a path: such an entry, be its
  status \<open>downloading\<close> or \<open>error\<close>, is still in the store, unchanged, after any number
  of runs of the task, whatever the clock readings.
\<close>

theorem cleanups_keep_pathless:
  assumes "distinct (map fst (videos s))" and "map_of (videos s) vid = Some info"
    and "\<not> truthy (path info)"
  shows "map_of (videos (cleanups v INACTIVITY_MINUTES locked ticks s)) vid = Some info"
  using assms
proof (induction ticks arbitrary: s)
  case Nil
  then show ?case by simp
next
  case (Cons t ticks)
  obtain wok now where t: "t = (wok, now)" by (cases t)
  from Cons.prems have
    "distinct (map fst (videos (fst (cleanup v wok now INACTIVITY_MINUTES locked s)))) \<and>
     map_of (videos (fst (cleanup v wok now INACTIVITY_MINUTES locked s))) vid = Some info"
    by (rule cleanup_keeps)
  with Cons.prems(3) show ?case
    unfolding t by (simp add: Cons.IH)
qed

theorem cleanups_keep_pathless_witness:
  "map_of (videos (cleanups VPS 60 (\<lambda>_. False) [(True, 5000000), (False, 900000000)] ex_state))
     ''111111111111'' = Some ex_pending"
  using cleanups_keep_pathless [of ex_state "''111111111111''" ex_pending VPS 60 "\<lambda>_. False"
      "[(True, 5000000), (False, 900000000)]"]
  by (simp add: ex_lookup truthy_def) (simp add: ex_state_def ex_pending_def)

lemma downloadFull_start_videos: "videos (st (downloadFull_start v D url vid w)) = videos (st w)"
  by (cases v) (simp_all add: downloadFull_start_def split: prod.splits)

lemma add_videos:
  assumes "truthy url" and "valid_url (the url)"
  shows "videos (st (fst (add v sha1_hex valid_url D wok now now' url w))) =
     AList.update (genId sha1_hex (the url) now) (new_entry (genId sha1_hex (the url) now) url now')
       (videos (st w))"
  using assms
  by (cases v; cases wok)
     (simp_all add: add_def persist_def Let_def downloadFull_start_videos)

text \<open>
  C4, as amended. Two \<open>/add\<close> calls with the same URL get the same id whenever
  \<open>genId\<close> reads the same clock value in both; the second call then overwrites the
  entry of the first and no key is added. When the two ids differ, the store holds the
  entries of both calls.
\<close>

theorem add_twice:
  assumes "truthy url" and "valid_url (the url)"
    and "idA = genId sha1_hex (the url) nowA" and "idB = genId sha1_hex (the url) nowB"
    and "wA = fst (add v sha1_hex valid_url DATA_DIR wokA nowA nowA' url w)"
    and "wB = fst (add v sha1_hex valid_url DATA_DIR wokB nowB nowB' url wA)"
  shows "(nowA = nowB \<longrightarrow> idA = idB) \<and>
     map_of (videos (st wA)) idA = Some (new_entry idA url nowA') \<and>
     map_of (videos (st wB)) idB = Some (new_entry idB url nowB') \<and>
     (idA = idB \<longrightarrow> map fst (videos (st wB)) = map fst (videos (st wA))) \<and>
     (idA \<noteq> idB \<longrightarrow> map_of (videos (st wB)) idA = Some (new_entry idA url nowA'))"
proof -
  have v1: "videos (st wA) = AList.update idA (new_entry idA url nowA') (videos (st w))"
    using assms by (simp add: add_videos)
  have v2: "videos (st wB) = AList.update idB (new_entry idB url nowB') (videos (st wA))"
    using assms by (simp add: add_videos)
  have "idA \<in> fst ` set (videos (st wA))"
    unfolding v1 by (simp add: AList.dom_update)
  then have "idA = idB \<longrightarrow> map fst (videos (st wB)) = map fst (videos (st wA))"
    unfolding v2 by (auto simp: update_keys)
  then show ?thesis
    using assms(3,4) by (simp add: v1 v2 update_conv')
qed

theorem add_twice_witness:
  "\<forall>sha1_hex.
     map_of (videos (st (fst (add MF sha1_hex (\<lambda>_. True) ''data'' True 1700000000000 1700000000000
          (Some ''http://x/a.mp4'') init_world))))
       (genId sha1_hex ''http://x/a.mp4'' 1700000000000) =
     Some (new_entry (genId sha1_hex ''http://x/a.mp4'' 1700000000000) (Some ''http://x/a.mp4'')
       1700000000000)"
proof
  fix sha1_hex :: "string \<Rightarrow> string"
  show "map_of (videos (st (fst (add MF sha1_hex (\<lambda>_. True) ''data'' True 1700000000000
          1700000000000 (Some ''http://x/a.mp4'') init_world))))
       (genId sha1_hex ''http://x/a.mp4'' 1700000000000) =
     Some (new_entry (genId sha1_hex ''http://x/a.mp4'' 1700000000000) (Some ''http://x/a.mp4'')
       1700000000000)"
    using add_twice [where url = "Some ''http://x/a.mp4''" and valid_url = "\<lambda>_. True"
        and sha1_hex = sha1_hex and nowA = 1700000000000 and nowB = 1700000000500
        and nowA' = 1700000000000 and nowB' = 1700000000500
        and v = MF and DATA_DIR = "''data''" and wokA = True and wokB = True and w = init_world
        and idA = "genId sha1_hex ''http://x/a.mp4'' 1700000000000"
        and idB = "genId sha1_hex ''http://x/a.mp4'' 1700000000500"
        and wA = "fst (add MF sha1_hex (\<lambda>_. True) ''data'' True 1700000000000 1700000000000
          (Some ''http://x/a.mp4'') init_world)"
        and wB = "fst (add MF sha1_hex (\<lambda>_. True) ''data'' True 1700000000500 1700000000500
          (Some ''http://x/a.mp4'')
          (fst (add MF sha1_hex (\<lambda>_. True) ''data'' True 1700000000000 1700000000000
          (Some ''http://x/a.mp4'') init_world)))"]
    by (simp add: truthy_def)
qed

text \<open>
  C4 as the specification states it fails for two calls within one millisecond: whatever
  the hash function, both calls answer with the same id, the store holds one entry, and
  two downloads are in flight under that id.
\<close>

theorem add_twice_counterexample:
  "\<forall>sha1_hex.
     snd (add VPS sha1_hex (\<lambda>_. True) ''data'' True 1700000000000 1700000000000
            (Some ''http://x/a.mp4'') init_world) =
       Responded \<lparr>statusCode = 200, headers = [],
         body = ''{\"id\":\"'' @ genId sha1_hex ''http://x/a.mp4'' 1700000000000
                  @ ''\",\"status\":\"downloading\"}''\<rparr> \<and>
     snd (add VPS sha1_hex (\<lambda>_. True) ''data'' True 1700000000000 1700000000000
            (Some ''http://x/a.mp4'')
            (fst (add VPS sha1_hex (\<lambda>_. True) ''data'' True 1700000000000 1700000000000
               (Some ''http://x/a.mp4'') init_world))) =
       Responded \<lparr>statusCode = 200, headers = [],
         body = ''{\"id\":\"'' @ genId sha1_hex ''http://x/a.mp4'' 1700000000000
                  @ ''\",\"status\":\"downloading\"}''\<rparr> \<and>
     map fst (videos (st (fst (add VPS sha1_hex (\<lambda>_. True) ''data'' True 1700000000000
            1700000000000 (Some ''http://x/a.mp4'')
            (fst (add VPS sha1_hex (\<lambda>_. True) ''data'' True 1700000000000 1700000000000
               (Some ''http://x/a.mp4'') init_world)))))) =
       [genId sha1_hex ''http://x/a.mp4'' 1700000000000] \<and>
     map task_id (tasks (fst (add VPS sha1_hex (\<lambda>_. True) ''data'' True 1700000000000
            1700000000000 (Some ''http://x/a.mp4'')
            (fst (add VPS sha1_hex (\<lambda>_. True) ''data'' True 1700000000000 1700000000000
               (Some ''http://x/a.mp4'') init_world))))) =
       [genId sha1_hex ''http://x/a.mp4'' 1700000000000,
        genId sha1_hex ''http://x/a.mp4'' 1700000000000]"
  by (simp add: add_def truthy_def init_world_def persist_def downloadFull_start_def
      createWriteStream_def Let_def split: prod.splits)

text \<open>
  In video-proxy-server a failed write of \<open>videos.json\<close> is logged and nothing else
  changes: \<open>persist\<close> returns, and the store is what it was.
\<close>

lemma persist_guarded:
  "videos (fst (persist VPS wok s)) = videos s \<and> snd (persist VPS wok s) = None \<and>
   (\<not> wok \<longrightarrow> console (fst (persist VPS wok s)) = console s @ [''persist error''])"
  by (simp add: persist_def)

text \<open>
  So every operation of video-proxy-server leaves the same store, and gives the same
  answer, whether its write succeeds or not.
\<close>

lemma on_error_guarded:
  "videos (fst (on_error VPS wok vid err s)) = videos (fst (on_error VPS True vid err s)) \<and>
   snd (on_error VPS wok vid err s) = None"
  by (simp add: on_error_def Let_def persist_def)

lemma persist_failure_harmless:
  "videos (fst (stream VPS wok now vid rng s)) = videos (fst (stream VPS True now vid rng s))"
  "snd (stream VPS wok now vid rng s) = snd (stream VPS True now vid rng s)"
  "videos (fst (cleanup VPS wok now m locked s)) = videos (fst (cleanup VPS True now m locked s))"
  "snd (cleanup VPS wok now m locked s) = None"
  "videos (st (fst (add VPS sha1_hex valid_url D wok now now' url w))) =
     videos (st (fst (add VPS sha1_hex valid_url D True now now' url w)))"
  "tasks (fst (add VPS sha1_hex valid_url D wok now now' url w)) =
     tasks (fst (add VPS sha1_hex valid_url D True now now' url w))"
  "snd (add VPS sha1_hex valid_url D wok now now' url w) =
     snd (add VPS sha1_hex valid_url D True now now' url w)"
  "videos (fst (downloadFull_end VPS D wok wok' now vid s)) =
     videos (fst (downloadFull_end VPS D True True now vid s))"
  "snd (downloadFull_end VPS D wok wok' now vid s) = None"
proof -
  show "videos (fst (stream VPS wok now vid rng s)) = videos (fst (stream VPS True now vid rng s))"
    "snd (stream VPS wok now vid rng s) = snd (stream VPS True now vid rng s)"
    by (auto simp: stream_def persist_def Let_def split: option.splits)
  show "videos (fst (cleanup VPS wok now m locked s)) = videos (fst (cleanup VPS True now m locked s))"
    "snd (cleanup VPS wok now m locked s) = None"
    by (simp_all add: cleanup_def persist_def)
  show "videos (st (fst (add VPS sha1_hex valid_url D wok now now' url w))) =
     videos (st (fst (add VPS sha1_hex valid_url D True now now' url w)))"
    "tasks (fst (add VPS sha1_hex valid_url D wok now now' url w)) =
     tasks (fst (add VPS sha1_hex valid_url D True now now' url w))"
    "snd (add VPS sha1_hex valid_url D wok now now' url w) =
     snd (add VPS sha1_hex valid_url D True now now' url w)"
    by (simp_all add: add_def persist_def Let_def downloadFull_start_def split: prod.splits)
  show "videos (fst (downloadFull_end VPS D wok wok' now vid s)) =
     videos (fst (downloadFull_end VPS D True True now vid s))"
    "snd (downloadFull_end VPS D wok wok' now vid s) = None"
    by (auto simp: downloadFull_end_def Let_def persist_def on_error_def set_entry_def
        split: prod.splits option.splits)
qed

text \<open>
  C5. A failed write of the record file shall be logged and leave the mutation of the
  store as it is with a successful write. mainframe\_server breaks this: its
  \<open>persist\<close> has no try/catch. A download that ends while the write fails is recorded
  as \<open>error\<close> where a successful write leaves it \<open>ready\<close>; the exception of the catch
  block's own \<open>persist()\<close> leaves \<open>downloadFull\<close>; and the handler of
  \<open>/stream/:id\<close> and the cleanup task are left by the exception.
\<close>

theorem persist_failure_mainframe:
  "map_option status
     (map_of (videos (fst (downloadFull_end MF ''data'' True True 9000 ''111111111111'' ex_download)))
        ''111111111111'') = Some Ready \<and>
   map_option status
     (map_of (videos (fst (downloadFull_end MF ''data'' False True 9000 ''111111111111'' ex_download)))
        ''111111111111'') = Some Error \<and>
   snd (downloadFull_end MF ''data'' False False 9000 ''111111111111'' ex_download) = Some WriteFailed \<and>
   snd (stream MF False 5000 ''0a1b2c3d4e5f'' None ex_state) = Threw WriteFailed \<and>
   snd (cleanup MF False 5000000 60 (\<lambda>_. False) ex_state) = Some WriteFailed"
  by (simp add: downloadFull_end_def ex_download_def ex_pending_def renameSync_def tmpPath_def
      filePath_def set_entry_def persist_def on_error_def Let_def cleanup_throws
      stream_cached [of ex_state "''0a1b2c3d4e5f''" ex_entry] ex_lookup truthy_def)

theorem persist_failure_mainframe_witness:
  "map_option status
     (map_of (videos (fst (downloadFull_end MF ''data'' False True 9000 ''111111111111'' ex_download)))
        ''111111111111'') = Some Error \<and>
   snd (stream MF False 5000 ''0a1b2c3d4e5f'' None ex_state) = Threw WriteFailed"
  using persist_failure_mainframe by simp

lemma staged_content_range:
  assumes "o_status up = 206" and "o_headers up ''content-range'' = Some cr" and "cr \<noteq> []"
  shows "map_of (staged_headers v up) ''Content-Range'' = Some cr"
  using assms by (simp add: staged_headers_def truthy_def)

text \<open>
  C8, as amended. When the url is well formed and the origin answers 206 with a
  Content-Range header whose value is not empty, the head that the server stages is 206
  with the origin's Content-Range value unchanged. If the pipeline returns, the client
  gets this head with the origin's body. If the pipeline fails after bytes were written,
  the client has this head and those bytes. If it fails before, the connection is
  destroyed and the client gets no response. No other answer is sent.
\<close>

theorem stream_proxy_relays_content_range:
  assumes "truthy url" and "valid_url (the url)"
    and "origin (the url) (if truthy rng then rng else None) = Fetched up"
    and "o_status up = 206" and "o_headers up ''content-range'' = Some cr" and "cr \<noteq> []"
  shows "stream_proxy v valid_url origin pipe url rng =
     (case pipe of
        Piped \<Rightarrow>
          Sent \<lparr>statusCode = 206, headers = staged_headers v up, body = o_body up\<rparr>
      | Broke n \<Rightarrow>
          if n = 0 then Destroyed
          else Cut \<lparr>statusCode = 206, headers = staged_headers v up, body = take n (o_body up)\<rparr>
                 ERR_HTTP_HEADERS_SENT) \<and>
     map_of (staged_headers v up) ''Content-Range'' = Some cr"
proof -
  have "\<not> upstream_refused v (o_status up)"
    using assms(4) by (cases v) (simp_all add: upstream_refused_def)
  then have "stream_proxy v valid_url origin pipe url rng =
     (case pipe of
        Piped \<Rightarrow>
          Sent \<lparr>statusCode = 206, headers = staged_headers v up, body = o_body up\<rparr>
      | Broke n \<Rightarrow>
          if n = 0 then Destroyed
          else Cut \<lparr>statusCode = 206, headers = staged_headers v up, body = take n (o_body up)\<rparr>
                 ERR_HTTP_HEADERS_SENT)"
    using assms by (simp add: stream_proxy_def Let_def split: piping.splits)
  then show ?thesis
    using assms staged_content_range [of up cr v] by simp
qed

theorem stream_proxy_relays_content_range_witness:
  "stream_proxy MF (\<lambda>_. True) (ex_origin ''bytes 0-9/100'') Piped
      (Some ''http://x/a.mp4'') (Some ''bytes=0-9'') =
     Sent \<lparr>statusCode = 206,
           headers = [(''Content-Range'', ''bytes 0-9/100''), (''Accept-Ranges'', ''bytes''),
                      (''Content-Length'', ''10''),
                      (''Content-Type'', ''application/octet-stream''),
                      (''Cache-Control'', ''no-store'')],
           body = ''abcdefghij''\<rparr> \<and>
   stream_proxy VPS (\<lambda>_. True) (ex_origin ''bytes 0-9/100'') (Broke 4)
      (Some ''http://x/a.mp4'') (Some ''bytes=0-9'') =
     Cut \<lparr>statusCode = 206,
          headers = [(''Content-Range'', ''bytes 0-9/100''), (''Accept-Ranges'', ''bytes''),
                     (''Content-Length'', ''10''), (''Cache-Control'', ''no-store'')],
          body = ''abcd''\<rparr> ERR_HTTP_HEADERS_SENT"
  using stream_proxy_relays_content_range [where url = "Some ''http://x/a.mp4''"
      and valid_url = "\<lambda>_. True" and origin = "ex_origin ''bytes 0-9/100''"
      and rng = "Some ''bytes=0-9''" and cr = "''bytes 0-9/100''" and pipe = Piped and v = MF
      and up = "\<lparr>o_status = 206,
          o_headers = [''content-range'' \<mapsto> ''bytes 0-9/100'', ''content-length'' \<mapsto> ''10''],
          o_body = ''abcdefghij''\<rparr>"]
    stream_proxy_relays_content_range [where url = "Some ''http://x/a.mp4''"
      and valid_url = "\<lambda>_. True" and origin = "ex_origin ''bytes 0-9/100''"
      and rng = "Some ''bytes=0-9''" and cr = "''bytes 0-9/100''" and pipe = "Broke 4" and v = VPS
      and up = "\<lparr>o_status = 206,
          o_headers = [''content-range'' \<mapsto> ''bytes 0-9/100'', ''content-length'' \<mapsto> ''10''],
          o_body = ''abcdefghij''\<rparr>"]
  by (simp add: truthy_def ex_origin_def staged_headers_def str_or_def)

text \<open>
  C8 as the specification states it fails for an origin that sends Content-Range with an
  empty value: \<open>if (cr)\<close> skips the header, and the answer is 206 without
  Content-Range.
\<close>

theorem stream_proxy_relays_content_range_counterexample:
  "stream_proxy VPS (\<lambda>_. True) (ex_origin []) Piped (Some ''http://x/a.mp4'')
       (Some ''bytes=0-9'') =
     Sent \<lparr>statusCode = 206,
           headers = [(''Accept-Ranges'', ''bytes''), (''Content-Length'', ''10''),
                      (''Cache-Control'', ''no-store'')],
           body = ''abcdefghij''\<rparr>"
  by (simp add: stream_proxy_def ex_origin_def truthy_def upstream_refused_def staged_headers_def
      str_or_def)

section \<open>The download and the files\<close>

subsection \<open>Paths\<close>

lemma filePath_inj [simp]: "filePath D a = filePath D b \<longleftrightarrow> a = b"
  by (simp add: filePath_def)

lemma tmpPath_inj [simp]: "tmpPath D a = tmpPath D b \<longleftrightarrow> a = b"
  by (simp add: tmpPath_def)

lemma file_ne_tmp: "length a = length b \<Longrightarrow> filePath D a \<noteq> tmpPath D b"
proof
  assume len: "length a = length b" and "filePath D a = tmpPath D b"
  then have "a = b @ ''.part''" by (simp add: filePath_def tmpPath_def)
  then have "length a = length b + 5" by simp
  with len show False by simp
qed

lemma tmp_ne_file: "length a = length b \<Longrightarrow> tmpPath D b \<noteq> filePath D a"
  using file_ne_tmp [of a b D] by auto

subsection \<open>What each operation leaves alone\<close>

lemma persist_paths: "paths_of (fst (persist v wok s)) = paths_of s"
  by (simp add: paths_of_def persist_videos)

lemma set_entry_paths:
  "(\<And>e. path (f e) = path e) \<Longrightarrow> paths_of (set_entry vid f s) = paths_of s"
  by (auto simp: paths_of_def set_entry_def)

lemma set_entry_fs [simp]: "fs (set_entry vid f s) = fs s"
  by (simp add: set_entry_def)

lemma on_error_paths: "paths_of (fst (on_error v wok vid err s)) = paths_of s"
proof -
  have "paths_of (s\<lparr>console := c\<rparr>) = paths_of s" for c
    by (simp add: paths_of_def)
  then show ?thesis
    by (cases v) (simp_all add: on_error_def Let_def persist_paths set_entry_paths)
qed

lemma on_error_fs: "fs (fst (on_error v wok vid err s)) = fs s"
  by (cases v) (simp_all add: on_error_def Let_def persist_fs)

lemma touch_paths: "paths_of (touch vid now s) = paths_of s"
  by (auto simp: paths_of_def touch_def)

lemma touch_fs [simp]: "fs (touch vid now s) = fs s"
  by (simp add: touch_def)

lemma stream_paths: "paths_of (fst (stream v wok now vid rng s)) = paths_of s"
proof -
  have "paths_of (fst (persist v wok (touch vid now s))) = paths_of s"
    by (simp add: persist_paths touch_paths)
  then show ?thesis
    by (auto simp: stream_def Let_def split: option.splits prod.splits)
qed

lemma stream_fs: "fs (fst (stream v wok now vid rng s)) = fs s"
proof -
  have "fs (fst (persist v wok (touch vid now s))) = fs s"
    by (simp add: persist_fs)
  then show ?thesis
    by (auto simp: stream_def Let_def split: option.splits prod.splits)
qed

subsection \<open>Frames of the invariant's parts\<close>

lemma writer_ok_frame:
  assumes "writer_ok v D fsys t"
    and "links fsys' (tmpPath D (task_id t)) = links fsys (tmpPath D (task_id t))"
    and "\<And>i. phase t \<noteq> Settled \<Longrightarrow> writer t = Some i \<Longrightarrow> inodes fsys' i = inodes fsys i"
  shows "writer_ok v D fsys' t"
  using assms by (auto simp: writer_ok_def split: option.splits)

lemma promoted_ok_frame:
  assumes "promoted_ok D fsys ts (vid, p)"
    and "links fsys' (filePath D vid) = links fsys (filePath D vid)"
    and "\<And>i. links fsys (filePath D vid) = Some i \<Longrightarrow> inodes fsys' i = inodes fsys i"
    and "{t \<in> set ts'. task_id t = vid} = {t \<in> set ts. task_id t = vid}"
  shows "promoted_ok D fsys' ts' (vid, p)"
proof -
  have rd: "readFile fsys' (filePath D vid) = readFile fsys (filePath D vid)"
    using assms(2,3) by (auto simp: readFile_def split: option.splits)
  have ex: "existsSync fsys' (filePath D vid) = existsSync fsys (filePath D vid)"
    using assms(2) by (simp add: existsSync_def)
  have mem: "(\<exists>t \<in> set ts'. task_id t = vid) = (\<exists>t \<in> set ts. task_id t = vid)"
    using assms(4) by blast
  have all: "\<And>t. t \<in> set ts' \<Longrightarrow> task_id t = vid \<Longrightarrow> t \<in> set ts"
    using assms(4) by blast
  show ?thesis
    using assms(1) mem all
    by (simp add: promoted_ok_def rd ex image_iff) metis
qed

lemma promoted_ok_pending:
  "\<not> truthy p \<Longrightarrow> \<not> existsSync fsys (filePath D vid) \<Longrightarrow> promoted_ok D fsys ts (vid, p)"
  by (simp add: promoted_ok_def)

lemma tasks_replace:
  assumes "distinct (map task_id ts)" and "k < length ts" and "task_id t' = task_id (ts ! k)"
  shows "map task_id (ts[k := t']) = map task_id ts"
    and "set (ts[k := t']) = insert t' (set ts - {ts ! k})"
    and "\<And>t. t \<in> set ts \<Longrightarrow> t \<noteq> ts ! k \<Longrightarrow> task_id t \<noteq> task_id (ts ! k)"
proof -
  show "map task_id (ts[k := t']) = map task_id ts"
    using assms(2,3) by (simp add: map_update list_update_same_conv)
  have d: "distinct ts" using assms(1) by (simp add: distinct_map)
  then show "set (ts[k := t']) = insert t' (set ts - {ts ! k})"
    using assms(2) by (rule set_update_distinct)
  fix t assume "t \<in> set ts" "t \<noteq> ts ! k"
  moreover have "inj_on task_id (set ts)" using assms(1) by (simp add: distinct_map)
  moreover have "ts ! k \<in> set ts" using assms(2) by simp
  ultimately show "task_id t \<noteq> task_id (ts ! k)"
    by (auto dest: inj_onD)
qed

text \<open>A download in flight has no promoted entry.\<close>

lemma live_not_promoted:
  assumes "coherent v D U w" and "t \<in> set (tasks w)" and "phase t \<noteq> Settled"
    and "(task_id t, p) \<in> set (paths_of (st w))"
  shows "\<not> truthy p \<and> \<not> existsSync (fs (st w)) (filePath D (task_id t))"
  using assms by (fastforce simp: coherent_def promoted_ok_def)

lemma coherent_lengths:
  assumes "coherent v D U w"
  shows "\<And>t. t \<in> set (tasks w) \<Longrightarrow> length (task_id t) = 12"
    and "\<And>vid p. (vid, p) \<in> set (paths_of (st w)) \<Longrightarrow> length vid = 12"
  using assms by (auto simp: coherent_def ids_ok_def)

lemma coherent_replace:
  assumes coherent: "coherent v D U w" and k: "k < length (tasks w)"
    and live: "phase (tasks w ! k) \<noteq> Settled"
    and same_id: "task_id t' = task_id (tasks w ! k)"
    and paths: "paths_of s' = paths_of (st w)"
    and fs': "fs_ok D U (fs s')"
    and own: "writer_ok v D (fs s') t'"
    and links: "\<And>p. p \<noteq> tmpPath D (task_id (tasks w ! k)) \<Longrightarrow> links (fs s') p = links (fs (st w)) p"
    and inodes: "\<And>p i. p \<noteq> tmpPath D (task_id (tasks w ! k)) \<Longrightarrow> links (fs (st w)) p = Some i \<Longrightarrow>
        inodes (fs s') i = inodes (fs (st w)) i"
  shows "coherent v D U \<lparr>st = s', tasks = (tasks w)[k := t']\<rparr>"
proof -
  let ?ts = "tasks w" and ?tk = "tasks w ! k" and ?ts' = "(tasks w)[k := t']"
  have ids: "ids_ok U w" and wr: "\<forall>t \<in> set ?ts. writer_ok v D (fs (st w)) t"
    and pr: "\<forall>kp \<in> set (paths_of (st w)). promoted_ok D (fs (st w)) ?ts kp"
    using coherent by (simp_all add: coherent_def)
  have dist: "distinct (map task_id ?ts)" using ids by (simp add: ids_ok_def)
  note rep = tasks_replace [OF dist k same_id]
  have tk_in: "?tk \<in> set ?ts" using k by simp
  have len: "length (task_id t) = 12" if "t \<in> set ?ts" for t
    using that coherent by (rule coherent_lengths(1) [rotated])
  have "ids_ok U \<lparr>st = s', tasks = ?ts'\<rparr>"
    using ids rep(1) paths
    by (simp add: ids_ok_def) (metis image_set)
  moreover have "writer_ok v D (fs s') t" if "t \<in> set ?ts'" for t
  proof (cases "t = t'")
    case True
    then show ?thesis using own by simp
  next
    case False
    with that rep(2) have t: "t \<in> set ?ts" "t \<noteq> ?tk" by auto
    then have ne: "tmpPath D (task_id t) \<noteq> tmpPath D (task_id ?tk)"
      using rep(3) by simp
    have old: "writer_ok v D (fs (st w)) t" using wr t(1) by simp
    show ?thesis
    proof (rule writer_ok_frame [OF old])
      show "links (fs s') (tmpPath D (task_id t)) = links (fs (st w)) (tmpPath D (task_id t))"
        using ne by (rule links)
    next
      fix i assume "phase t \<noteq> Settled" and "writer t = Some i"
      with old have "links (fs (st w)) (tmpPath D (task_id t)) = Some i"
        by (simp add: writer_ok_def)
      with ne show "inodes (fs s') i = inodes (fs (st w)) i" by (rule inodes)
    qed
  qed
  moreover have "promoted_ok D (fs s') ?ts' (vid, p)" if mem: "(vid, p) \<in> set (paths_of (st w))" for vid p
  proof (cases "vid = task_id ?tk")
    case True
    have ne: "filePath D vid \<noteq> tmpPath D (task_id ?tk)"
      using True by (simp add: file_ne_tmp)
    have "\<not> truthy p \<and> \<not> existsSync (fs (st w)) (filePath D (task_id ?tk))"
      using coherent tk_in live mem unfolding True by (rule live_not_promoted)
    then show ?thesis
      using links [OF ne] True by (intro promoted_ok_pending) (simp_all add: existsSync_def)
  next
    case False
    have lv: "length vid = 12" using coherent mem by (rule coherent_lengths(2))
    have ne: "filePath D vid \<noteq> tmpPath D (task_id ?tk)"
      using lv len [OF tk_in] by (simp add: file_ne_tmp)
    have old: "promoted_ok D (fs (st w)) ?ts (vid, p)" using pr mem by blast
    show ?thesis
    proof (rule promoted_ok_frame [OF old])
      show "links (fs s') (filePath D vid) = links (fs (st w)) (filePath D vid)"
        using ne by (rule links)
      show "inodes (fs s') i = inodes (fs (st w)) i"
        if "links (fs (st w)) (filePath D vid) = Some i" for i
        using ne that by (rule inodes)
      show "{t \<in> set ?ts'. task_id t = vid} = {t \<in> set ?ts. task_id t = vid}"
        using False same_id rep(2) by auto
    qed
  qed
  ultimately show ?thesis
    using fs' paths by (auto simp: coherent_def)
qed

lemma coherent_world_eq: "coherent v D U w \<Longrightarrow> st w' = st w \<Longrightarrow> tasks w' = tasks w \<Longrightarrow> coherent v D U w'"
  by (simp add: coherent_def ids_ok_def)

lemma writer_ok_settle [simp]: "writer_ok v D fsys (settle t)"
  by (simp add: writer_ok_def settle_def)

lemma settle_id [simp]: "task_id (settle t) = task_id t"
  by (simp add: settle_def)

lemma coherent_settle:
  assumes "coherent v D U w" and "k < length (tasks w)" and "phase (tasks w ! k) \<noteq> Settled"
    and "paths_of s' = paths_of (st w)" and "fs s' = fs (st w)"
  shows "coherent v D U \<lparr>st = s', tasks = (tasks w)[k := settle (tasks w ! k)]\<rparr>"
  using assms by (intro coherent_replace) (simp_all add: coherent_def)

lemma coherent_stream:
  assumes "coherent v D U w"
  shows "coherent v D U (step v sha1_hex valid_url D m (Stream wok now vid rng) w)"
  using assms by (simp add: step_def coherent_def ids_ok_def stream_paths stream_fs)

lemma coherent_abort:
  assumes "coherent v D U w"
  shows "coherent v D U (step v sha1_hex valid_url D m (Abort k err wok') w)"
proof (cases "k < length (tasks w) \<and> phase (tasks w ! k) = Piping")
  case True
  then show ?thesis
    using assms by (simp add: step_def coherent_settle on_error_paths on_error_fs)
next
  case False
  then show ?thesis using assms by (auto simp: step_def)
qed

lemma write_at_end: "write_at content (length content) c = content @ c"
  by (simp add: write_at_def)

lemma coherent_chunk:
  assumes coherent: "coherent v D U w"
  shows "coherent v D U (step v sha1_hex valid_url D m (Chunk k) w)"
proof (cases "k < length (tasks w) \<and> phase (tasks w ! k) = Piping")
  case False
  then show ?thesis using coherent by (auto simp: step_def)
next
  case True
  let ?tk = "tasks w ! k"
  have tk_in: "?tk \<in> set (tasks w)" using True by simp
  have wok: "writer_ok v D (fs (st w)) ?tk" and fsok: "fs_ok D U (fs (st w))"
    using coherent tk_in by (simp_all add: coherent_def)
  from wok True obtain i where i: "writer ?tk = Some i"
    and li: "links (fs (st w)) (tmpPath D (task_id ?tk)) = Some i"
    and ci: "inodes (fs (st w)) i = concat (delivered ?tk)"
    and wi: "written ?tk = length (concat (delivered ?tk))"
    by (auto simp: writer_ok_def split: option.splits)
  show ?thesis
  proof (cases "incoming ?tk")
    case Nil
    then have "step v sha1_hex valid_url D m (Chunk k) w = \<lparr>st = st w, tasks = tasks w\<rparr>"
      using True i by (simp add: step_def downloadFull_chunk_def)
    then show ?thesis using coherent by (simp add: coherent_world_eq)
  next
    case (Cons c cs)
    let ?t' = "?tk\<lparr>written := written ?tk + length c, incoming := cs,
        delivered := delivered ?tk @ [c]\<rparr>"
    let ?s' = "(st w)\<lparr>fs := (fs (st w))\<lparr>inodes := (inodes (fs (st w)))
        (i := write_at (inodes (fs (st w)) i) (written ?tk) c)\<rparr>\<rparr>"
    have eq: "step v sha1_hex valid_url D m (Chunk k) w = \<lparr>st = ?s', tasks = (tasks w)[k := ?t']\<rparr>"
      using True i Cons by (simp add: step_def downloadFull_chunk_def)
    have "coherent v D U \<lparr>st = ?s', tasks = (tasks w)[k := ?t']\<rparr>"
    proof (rule coherent_replace [OF coherent])
      show "k < length (tasks w)" using True by simp
      show "phase ?tk \<noteq> Settled" using True by simp
      show "task_id ?t' = task_id ?tk" by simp
      show "paths_of ?s' = paths_of (st w)" by (simp add: paths_of_def)
      show "fs_ok D U (fs ?s')" using fsok by (simp add: fs_ok_def)
      show "writer_ok v D (fs ?s') ?t'"
        using True i li ci wi by (simp add: writer_ok_def write_at_end)
      show "links (fs ?s') p = links (fs (st w)) p" for p by simp
      show "inodes (fs ?s') j = inodes (fs (st w)) j"
        if "p \<noteq> tmpPath D (task_id ?tk)" "links (fs (st w)) p = Some j" for p j
      proof -
        have "j \<noteq> i" using that li fsok by (auto simp: fs_ok_def)
        then show ?thesis by simp
      qed
    qed
    then show ?thesis by (simp add: eq)
  qed
qed

lemma fs_ok_create:
  assumes "fs_ok D U fsys" and "links fsys p = None" and "u \<in> U"
    and "p = tmpPath D u \<or> p = filePath D u"
  shows "fs_ok D U (fst (createWriteStream fsys p))"
    and "snd (createWriteStream fsys p) = next_ino fsys"
    and "links (fst (createWriteStream fsys p)) = (links fsys)(p \<mapsto> next_ino fsys)"
    and "inodes (fst (createWriteStream fsys p)) = (inodes fsys)(next_ino fsys := [])"
proof -
  have lt: "\<And>q i. links fsys q = Some i \<Longrightarrow> i < next_ino fsys"
    using assms(1) by (auto simp: fs_ok_def)
  show "fs_ok D U (fst (createWriteStream fsys p))"
    using assms lt unfolding fs_ok_def createWriteStream_def
    by (auto simp: less_Suc_eq split: if_splits)
qed (simp_all add: createWriteStream_def assms(2))

lemma coherent_response:
  assumes coherent: "coherent v D U w"
  shows "coherent v D U (step v sha1_hex valid_url D m (Response k up wok wok') w)"
proof (cases "k < length (tasks w) \<and> phase (tasks w ! k) = Fetching")
  case False
  then show ?thesis using coherent by (auto simp: step_def)
next
  case True
  let ?tk = "tasks w ! k"
  have k: "k < length (tasks w)" and live: "phase ?tk \<noteq> Settled" and ph: "phase ?tk = Fetching"
    using True by simp_all
  have tk_in: "?tk \<in> set (tasks w)" using k by simp
  have wok: "writer_ok v D (fs (st w)) ?tk" and fsok: "fs_ok D U (fs (st w))"
    using coherent tk_in by (simp_all add: coherent_def)
  have idU: "task_id ?tk \<in> U" using coherent tk_in by (auto simp: coherent_def ids_ok_def)
  have settle: "coherent v D U \<lparr>st = s', tasks = (tasks w)[k := settle ?tk]\<rparr>"
    if "paths_of s' = paths_of (st w)" "fs s' = fs (st w)" for s'
    using coherent k live that by (rule coherent_settle)
  have err: "coherent v D U \<lparr>st = fst (on_error v' b (task_id ?tk) e s'), tasks = (tasks w)[k := settle ?tk]\<rparr>"
    if "paths_of s' = paths_of (st w)" "fs s' = fs (st w)" for s' v' b e
    using that by (intro settle) (simp_all add: on_error_paths on_error_fs)
  have eq: "step v sha1_hex valid_url D m (Response k up wok wok') w =
      \<lparr>st = fst (downloadFull_response v D wok wok' up ?tk (st w)),
       tasks = (tasks w)[k := snd (downloadFull_response v D wok wok' up ?tk (st w))]\<rparr>"
    using True by (simp add: step_def split: prod.splits)
  show ?thesis
  proof (cases up)
    case Unreachable
    then show ?thesis unfolding eq
      using err [of "st w" v wok' FetchFailed] by (simp add: downloadFull_response_def)
  next
    case (Head code chunks)
    show ?thesis
    proof (cases v)
      case VPS
      show ?thesis
      proof (cases "200 \<le> code \<and> code < 300")
        case False
        then show ?thesis unfolding eq
          using Head VPS err [of "st w" VPS wok' FetchFailed]
          by (auto simp add: downloadFull_response_def)
      next
        case True
        let ?t' = "?tk\<lparr>phase := Piping, incoming := chunks\<rparr>"
        have "coherent v D U \<lparr>st = st w, tasks = (tasks w)[k := ?t']\<rparr>"
        proof (rule coherent_replace [OF coherent k live])
          show "writer_ok v D (fs (st w)) ?t'"
            using wok VPS ph by (auto simp: writer_ok_def split: option.splits)
        qed (simp_all add: fsok)
        then show ?thesis unfolding eq using Head VPS True
          by (simp add: downloadFull_response_def)
      qed
    next
      case MF
      show ?thesis
      proof (cases "200 \<le> code \<and> code \<le> 299")
        case False
        let ?s1 = "set_entry (task_id ?tk)
            (\<lambda>e. e\<lparr>status := Error, error := Some (''fetch_failed_'' @ toString (int code))\<rparr>) (st w)"
        have p1: "paths_of (fst (persist MF wok ?s1)) = paths_of (st w)"
          "fs (fst (persist MF wok ?s1)) = fs (st w)"
          by (simp_all add: persist_paths persist_fs set_entry_paths)
        show ?thesis
        proof (cases "map_of (videos (st w)) (task_id ?tk) = None")
          case True
          then show ?thesis unfolding eq
            using Head MF False err [of "st w" MF wok' TypeError]
            by (auto simp add: downloadFull_response_def)
        next
          case present: False
          show ?thesis
          proof (cases "snd (persist MF wok ?s1)")
            case None
            then show ?thesis unfolding eq
              using Head MF False present settle [OF p1]
              by (auto simp add: downloadFull_response_def split: prod.splits)
          next
            case (Some e)
            then show ?thesis unfolding eq
              using Head MF False present err [OF p1, of MF wok' e]
              by (auto simp add: downloadFull_response_def split: prod.splits)
          qed
        qed
      next
        case True
        from wok MF ph have none: "links (fs (st w)) (tmpPath D (task_id ?tk)) = None"
          and d0: "delivered ?tk = []" and w0: "written ?tk = 0" and wn: "writer ?tk = None"
          by (auto simp: writer_ok_def split: option.splits)
        note cr = fs_ok_create [OF fsok none idU disjI1 [OF refl]]
        let ?fs1 = "fst (createWriteStream (fs (st w)) (tmpPath D (task_id ?tk)))"
        let ?n = "next_ino (fs (st w))"
        let ?t' = "?tk\<lparr>phase := Piping, writer := Some ?n, incoming := chunks\<rparr>"
        have lt: "\<And>q i. links (fs (st w)) q = Some i \<Longrightarrow> i < ?n"
          using fsok by (auto simp: fs_ok_def)
        have "coherent v D U \<lparr>st = (st w)\<lparr>fs := ?fs1\<rparr>, tasks = (tasks w)[k := ?t']\<rparr>"
        proof (rule coherent_replace [OF coherent k live])
          show "task_id ?t' = task_id ?tk" by simp
          show "paths_of ((st w)\<lparr>fs := ?fs1\<rparr>) = paths_of (st w)" by (simp add: paths_of_def)
          show "fs_ok D U (fs ((st w)\<lparr>fs := ?fs1\<rparr>))" using cr(1) by simp
          show "writer_ok v D (fs ((st w)\<lparr>fs := ?fs1\<rparr>)) ?t'"
            using cr(3,4) d0 w0 by (simp add: writer_ok_def)
          show "links (fs ((st w)\<lparr>fs := ?fs1\<rparr>)) p = links (fs (st w)) p"
            if "p \<noteq> tmpPath D (task_id ?tk)" for p
            using that cr(3) by simp
          show "inodes (fs ((st w)\<lparr>fs := ?fs1\<rparr>)) i = inodes (fs (st w)) i"
            if "links (fs (st w)) p = Some i" for p i
            using lt [OF that] cr(4) by simp
        qed
        then show ?thesis unfolding eq using Head MF True cr(2)
          by (auto simp add: downloadFull_response_def split: prod.splits)
      qed
    qed
  qed
qed

lemma paths_of_console [simp]: "paths_of (s\<lparr>console := c\<rparr>) = paths_of s"
  by (simp add: paths_of_def)

lemma paths_of_fs [simp]: "paths_of (s\<lparr>fs := f\<rparr>) = paths_of s"
  by (simp add: paths_of_def)

lemma paths_of_set_path:
  "paths_of (set_entry x (\<lambda>e. e\<lparr>status := a, path := Some q, entry_size := b, lastAccess := c\<rparr>) s) =
     map (\<lambda>(k, p). if k = x then (k, Some q) else (k, p)) (paths_of s)"
  by (auto simp: paths_of_def set_entry_def)

lemma paths_of_absent:
  assumes "map_of (videos s) x = None"
  shows "map (\<lambda>(k, p). if k = x then (k, Some q) else (k, p)) (paths_of s) = paths_of s"
proof -
  have "x \<notin> fst ` set (videos s)" using assms by (simp add: map_of_eq_None_iff)
  then have "\<And>k p. (k, p) \<in> set (paths_of s) \<Longrightarrow> k \<noteq> x"
    by (force simp: paths_of_def)
  then show ?thesis by (auto intro!: map_idI)
qed

lemma downloadFull_end_effect:
  assumes "links (fs s) (tmpPath D x) = Some i"
  shows "fs (fst (downloadFull_end v D wok wok' now x s)) =
      (fs s)\<lparr>links := ((links (fs s))(tmpPath D x := None))(filePath D x \<mapsto> i)\<rparr>"
    and "paths_of (fst (downloadFull_end v D wok wok' now x s)) =
      map (\<lambda>(k, p). if k = x then (k, Some (filePath D x)) else (k, p)) (paths_of s)"
proof -
  let ?fs1 = "(fs s)\<lparr>links := ((links (fs s))(tmpPath D x := None))(filePath D x \<mapsto> i)\<rparr>"
  have rn: "renameSync (fs s) (tmpPath D x) (filePath D x) = (?fs1, None)"
    using assms by (simp add: renameSync_def)
  show "fs (fst (downloadFull_end v D wok wok' now x s)) = ?fs1"
    unfolding downloadFull_end_def rn
    by (cases "persist v wok (set_entry x
          (\<lambda>e. e\<lparr>status := Ready, path := Some (filePath D x),
                entry_size := Some (statSync_size ?fs1 (filePath D x)),
                lastAccess := Some now\<rparr>) (s\<lparr>fs := ?fs1\<rparr>))")
       (auto simp: Let_def on_error_fs dest: arg_cong [where f = "\<lambda>r. fs (fst r)"]
          simp: persist_fs split: option.splits)
  show "paths_of (fst (downloadFull_end v D wok wok' now x s)) =
      map (\<lambda>(k, p). if k = x then (k, Some (filePath D x)) else (k, p)) (paths_of s)"
  proof (cases "map_of (videos s) x = None")
    case True
    then show ?thesis
      unfolding downloadFull_end_def rn
      by (simp add: Let_def on_error_paths paths_of_absent)
  next
    case False
    let ?s2 = "set_entry x
          (\<lambda>e. e\<lparr>status := Ready, path := Some (filePath D x),
                entry_size := Some (statSync_size ?fs1 (filePath D x)),
                lastAccess := Some now\<rparr>) (s\<lparr>fs := ?fs1\<rparr>)"
    have "paths_of (fst (persist v wok ?s2)) =
        map (\<lambda>(k, p). if k = x then (k, Some (filePath D x)) else (k, p)) (paths_of s)"
      by (simp add: persist_paths paths_of_set_path)
    then show ?thesis
      unfolding downloadFull_end_def rn using False
      by (cases "persist v wok ?s2") (auto simp: Let_def on_error_paths split: option.splits)
  qed
qed

lemma coherent_finish:
  assumes coherent: "coherent v D U w"
  shows "coherent v D U (step v sha1_hex valid_url D m (Finish k wok wok' now) w)"
proof (cases "k < length (tasks w) \<and> phase (tasks w ! k) = Piping \<and> incoming (tasks w ! k) = []")
  case False
  then show ?thesis using coherent by (auto simp: step_def)
next
  case True
  let ?ts = "tasks w" and ?tk = "tasks w ! k" and ?x = "task_id (tasks w ! k)"
  let ?ts' = "(tasks w)[k := settle ?tk]"
  let ?s' = "fst (downloadFull_end v D wok wok' now ?x (st w))"
  have k: "k < length ?ts" and live: "phase ?tk \<noteq> Settled" and inc: "incoming ?tk = []"
    using True by simp_all
  have tk_in: "?tk \<in> set ?ts" using k by simp
  have ids: "ids_ok U w" and wr: "\<forall>t \<in> set ?ts. writer_ok v D (fs (st w)) t"
    and pr: "\<forall>kp \<in> set (paths_of (st w)). promoted_ok D (fs (st w)) ?ts kp"
    and fsok: "fs_ok D U (fs (st w))"
    using coherent by (simp_all add: coherent_def)
  have dist: "distinct (map task_id ?ts)" using ids by (simp add: ids_ok_def)
  note rep = tasks_replace [OF dist k settle_id]
  have xU: "?x \<in> U" using ids tk_in by (auto simp: ids_ok_def)
  have len: "length (task_id t) = 12" if "t \<in> set ?ts" for t
    using that coherent by (rule coherent_lengths(1) [rotated])
  have wtk: "writer_ok v D (fs (st w)) ?tk" using wr tk_in by simp
  from wtk True obtain i where li: "links (fs (st w)) (tmpPath D ?x) = Some i"
    and ci: "inodes (fs (st w)) i = concat (delivered ?tk)"
    by (auto simp: writer_ok_def split: option.splits)
  note eff = downloadFull_end_effect [OF li, of v wok wok' now]
  let ?fs1 = "(fs (st w))\<lparr>links := ((links (fs (st w)))(tmpPath D ?x := None))(filePath D ?x \<mapsto> i)\<rparr>"
  have ne_xt: "filePath D ?x \<noteq> tmpPath D ?x" by (simp add: file_ne_tmp)
  have eq: "step v sha1_hex valid_url D m (Finish k wok wok' now) w = \<lparr>st = ?s', tasks = ?ts'\<rparr>"
    using True by (simp add: step_def)
  have keys: "map fst (paths_of ?s') = map fst (paths_of (st w))"
    unfolding eff(2) by (induction "paths_of (st w)") auto
  have "ids_ok U \<lparr>st = ?s', tasks = ?ts'\<rparr>"
    using ids rep(1) keys by (simp add: ids_ok_def) (metis image_set)
  moreover have "fs_ok D U (fs ?s')"
    unfolding eff(1) using fsok li xU unfolding fs_ok_def
    by (auto split: if_splits)
  moreover have "writer_ok v D (fs ?s') t" if "t \<in> set ?ts'" for t
  proof (cases "t = settle ?tk")
    case True
    then show ?thesis by simp
  next
    case False
    with that rep(2) have t: "t \<in> set ?ts" "t \<noteq> ?tk" by auto
    then have ne: "task_id t \<noteq> ?x" using rep(3) by simp
    have ne2: "tmpPath D (task_id t) \<noteq> filePath D ?x"
      using len [OF t(1)] len [OF tk_in] by (simp add: tmp_ne_file)
    have old: "writer_ok v D (fs (st w)) t" using wr t(1) by simp
    show ?thesis
      by (rule writer_ok_frame [OF old]) (simp_all add: eff(1) ne ne2)
  qed
  moreover have "promoted_ok D (fs ?s') ?ts' (vid, p')" if mem: "(vid, p') \<in> set (paths_of ?s')" for vid p'
  proof -
    from mem obtain p where p: "(vid, p) \<in> set (paths_of (st w))"
      and p': "p' = (if vid = ?x then Some (filePath D ?x) else p)"
      unfolding eff(2) by (auto split: if_splits)
    show ?thesis
    proof (cases "vid = ?x")
      case True
      have only: "t = settle ?tk" if "t \<in> set ?ts'" "task_id t = ?x" for t
        using that rep(2,3) by auto
      have "settle ?tk \<in> set ?ts'" using rep(2) by simp
      then have mem_x: "?x \<in> task_id ` set ?ts'" by (metis settle_id image_eqI)
      have rd: "readFile (fs ?s') (filePath D ?x) = concat (delivered ?tk)"
        by (simp add: eff(1) readFile_def ci)
      have ex: "existsSync (fs ?s') (filePath D ?x)"
        by (simp add: eff(1) existsSync_def)
      have tr: "truthy (Some (filePath D ?x))"
        by (simp add: truthy_def filePath_def)
      have all: "\<forall>t \<in> set ?ts'. task_id t = ?x \<longrightarrow>
          phase t = Settled \<and> incoming t = [] \<and>
          readFile (fs ?s') (filePath D ?x) = concat (delivered t)"
      proof (intro ballI impI)
        fix t assume "t \<in> set ?ts'" "task_id t = ?x"
        then have "t = settle ?tk" by (rule only)
        then show "phase t = Settled \<and> incoming t = [] \<and>
            readFile (fs ?s') (filePath D ?x) = concat (delivered t)"
          using inc rd by (simp add: settle_def)
      qed
      have "promoted_ok D (fs ?s') ?ts' (?x, Some (filePath D ?x))"
        unfolding promoted_ok_def using ex tr all mem_x by simp
      then show ?thesis using True p' by simp
    next
      case False
      have lv: "length vid = 12" using coherent p by (rule coherent_lengths(2))
      have ne: "filePath D vid \<noteq> tmpPath D ?x" "filePath D vid \<noteq> filePath D ?x"
        using lv len [OF tk_in] False by (simp_all add: file_ne_tmp)
      have old: "promoted_ok D (fs (st w)) ?ts (vid, p)" using pr p by blast
      have "promoted_ok D (fs ?s') ?ts' (vid, p)"
      proof (rule promoted_ok_frame [OF old])
        show "{t \<in> set ?ts'. task_id t = vid} = {t \<in> set ?ts. task_id t = vid}"
          using False rep(2) by auto
      qed (simp_all add: eff(1) ne False)
      then show ?thesis using False p' by simp
    qed
  qed
  ultimately show ?thesis
    unfolding eq by (auto simp: coherent_def)
qed

lemma coherent_mono:
  assumes "coherent v D U w" and "length x = 12"
  shows "coherent v D (insert x U) w"
  using assms unfolding coherent_def ids_ok_def fs_ok_def by (auto; blast)

lemma update_absent: "k \<notin> fst ` set al \<Longrightarrow> AList.update k x al = al @ [(k, x)]"
  by (induction al) auto

lemma fresh_unlinked:
  assumes "fs_ok D U fsys" and "x \<notin> U" and "length x = 12" and "\<forall>u \<in> U. length u = 12"
  shows "links fsys (filePath D x) = None" and "links fsys (tmpPath D x) = None"
proof -
  have "\<And>u. u \<in> U \<Longrightarrow> filePath D x \<noteq> tmpPath D u \<and> tmpPath D x \<noteq> filePath D u \<and> x \<noteq> u"
    using assms(2,3,4) by (auto simp: file_ne_tmp tmp_ne_file)
  then show "links fsys (filePath D x) = None" "links fsys (tmpPath D x) = None"
    using assms(1) unfolding fs_ok_def
    by (metis filePath_inj tmpPath_inj not_Some_eq)+
qed

lemma coherent_add_entry:
  assumes coherent: "coherent v D U w" and fresh: "x \<notin> U" and len: "length x = 12"
    and paths: "paths_of s' = paths_of (st w) @ [(x, None)]" and fs': "fs s' = fs (st w)"
  shows "coherent v D (insert x U) (w\<lparr>st := s'\<rparr>)"
proof -
  have coherent': "coherent v D (insert x U) w" using coherent len by (rule coherent_mono)
  have ids: "ids_ok U w" and fsok: "fs_ok D U (fs (st w))" using coherent by (simp_all add: coherent_def)
  have lenU: "\<forall>u \<in> U. length u = 12" using ids by (simp add: ids_ok_def)
  note un = fresh_unlinked [OF fsok fresh len lenU]
  have "ids_ok (insert x U) (w\<lparr>st := s'\<rparr>)"
    using coherent' fresh ids by (auto simp: coherent_def ids_ok_def paths)
  moreover have "promoted_ok D (fs s') (tasks w) (x, None)"
    by (rule promoted_ok_pending) (simp_all add: truthy_def existsSync_def fs' un)
  ultimately show ?thesis
    using coherent' by (auto simp: coherent_def paths fs')
qed

lemma coherent_start:
  assumes coherent: "coherent v D U w" and fresh: "x \<notin> task_id ` set (tasks w)" and xU: "x \<in> U"
    and none: "links (fs (st w)) (tmpPath D x) = None"
    and pend: "\<And>p. (x, p) \<in> set (paths_of (st w)) \<Longrightarrow> \<not> truthy p"
    and nofile: "links (fs (st w)) (filePath D x) = None"
  shows "coherent v D U (downloadFull_start v D url x w)"
proof -
  have ids: "ids_ok U w" and fsok: "fs_ok D U (fs (st w))"
    and wr: "\<forall>t \<in> set (tasks w). writer_ok v D (fs (st w)) t"
    and pr: "\<forall>kp \<in> set (paths_of (st w)). promoted_ok D (fs (st w)) (tasks w) kp"
    using coherent by (simp_all add: coherent_def)
  have lenx: "length x = 12" using ids xU by (simp add: ids_ok_def)
  note cr = fs_ok_create [OF fsok none xU disjI1 [OF refl]]
  let ?n = "next_ino (fs (st w))"
  have lt: "\<And>q i. links (fs (st w)) q = Some i \<Longrightarrow> i < ?n"
    using fsok by (auto simp: fs_ok_def)
  define fs1 where "fs1 = (case v of VPS \<Rightarrow> fst (createWriteStream (fs (st w)) (tmpPath D x))
      | MF \<Rightarrow> fs (st w))"
  define t1 where "t1 = \<lparr>task_id = x, task_url = url, phase = Fetching,
      writer = (case v of VPS \<Rightarrow> Some ?n | MF \<Rightarrow> None),
      written = 0, incoming = [], delivered = []\<rparr>"
  have eq: "downloadFull_start v D url x w = \<lparr>st = (st w)\<lparr>fs := fs1\<rparr>, tasks = tasks w @ [t1]\<rparr>"
    using cr(2) by (cases v) (auto simp: downloadFull_start_def fs1_def t1_def split: prod.splits)
  have links1: "links fs1 p = links (fs (st w)) p" if "p \<noteq> tmpPath D x" for p
    using that cr(3) by (cases v) (simp_all add: fs1_def)
  have inodes1: "inodes fs1 i = inodes (fs (st w)) i" if "links (fs (st w)) p = Some i" for p i
    using lt [OF that] cr(4) by (cases v) (simp_all add: fs1_def)
  have "ids_ok U \<lparr>st = (st w)\<lparr>fs := fs1\<rparr>, tasks = tasks w @ [t1]\<rparr>"
    using ids fresh xU by (auto simp: ids_ok_def t1_def)
  moreover have "fs_ok D U fs1"
    using cr(1) fsok by (cases v) (simp_all add: fs1_def)
  moreover have "writer_ok v D fs1 t1"
    using cr(3,4) none by (cases v) (simp_all add: writer_ok_def t1_def fs1_def)
  moreover have "writer_ok v D fs1 t" if "t \<in> set (tasks w)" for t
  proof -
    have old: "writer_ok v D (fs (st w)) t" using wr that by simp
    have ne: "tmpPath D (task_id t) \<noteq> tmpPath D x" using that fresh by auto
    show ?thesis
    proof (rule writer_ok_frame [OF old])
      show "links fs1 (tmpPath D (task_id t)) = links (fs (st w)) (tmpPath D (task_id t))"
        using ne by (rule links1)
      fix i assume "phase t \<noteq> Settled" "writer t = Some i"
      with old have "links (fs (st w)) (tmpPath D (task_id t)) = Some i"
        by (simp add: writer_ok_def)
      then show "inodes fs1 i = inodes (fs (st w)) i" by (rule inodes1)
    qed
  qed
  moreover have "promoted_ok D fs1 (tasks w @ [t1]) (vid, p)"
    if mem: "(vid, p) \<in> set (paths_of (st w))" for vid p
  proof (cases "vid = x")
    case True
    have "filePath D x \<noteq> tmpPath D x" by (simp add: file_ne_tmp)
    then have "links fs1 (filePath D x) = None" using links1 nofile by simp
    then show ?thesis
      using pend mem True by (intro promoted_ok_pending) (simp_all add: existsSync_def)
  next
    case False
    have lv: "length vid = 12" using coherent mem by (rule coherent_lengths(2))
    have ne: "filePath D vid \<noteq> tmpPath D x" using lv lenx by (simp add: file_ne_tmp)
    have old: "promoted_ok D (fs (st w)) (tasks w) (vid, p)" using pr mem by blast
    show ?thesis
    proof (rule promoted_ok_frame [OF old])
      show "links fs1 (filePath D vid) = links (fs (st w)) (filePath D vid)"
        using ne by (rule links1)
      show "inodes fs1 i = inodes (fs (st w)) i"
        if "links (fs (st w)) (filePath D vid) = Some i" for i
        using that by (rule inodes1)
      show "{t \<in> set (tasks w @ [t1]). task_id t = vid} = {t \<in> set (tasks w). task_id t = vid}"
        using False by (auto simp: t1_def)
    qed
  qed
  ultimately show ?thesis
    unfolding eq by (auto simp: coherent_def)
qed

lemma genId_length: "\<forall>s. length (sha1_hex s) = 40 \<Longrightarrow> length (genId sha1_hex seed now) = 12"
  by (simp add: genId_def)

lemma coherent_add:
  assumes coherent: "coherent v D U w" and hex: "\<forall>s. length (sha1_hex s) = 40"
    and fresh: "set (minted sha1_hex valid_url [Add wok now now' url]) \<inter> U = {}"
  shows "coherent v D (U \<union> set (minted sha1_hex valid_url [Add wok now now' url]))
     (step v sha1_hex valid_url D m (Add wok now now' url) w)"
proof (cases "truthy url \<and> valid_url (the url)")
  case False
  then have "step v sha1_hex valid_url D m (Add wok now now' url) w = w"
    by (auto simp: step_def add_def)
  then show ?thesis using coherent False by auto
next
  case True
  define x where "x = genId sha1_hex (the url) now"
  have mint: "minted sha1_hex valid_url [Add wok now now' url] = [x]"
    using True by (simp add: x_def)
  have xU: "x \<notin> U" using fresh unfolding mint by simp
  have len: "length x = 12" unfolding x_def using hex by (rule genId_length)
  have ids: "ids_ok U w" and fsok: "fs_ok D U (fs (st w))" using coherent by (simp_all add: coherent_def)
  have lenU: "\<forall>u \<in> U. length u = 12" using ids by (simp add: ids_ok_def)
  have keys: "fst ` set (videos (st w)) \<subseteq> U"
    using ids by (force simp: ids_ok_def paths_of_def)
  then have absent: "x \<notin> fst ` set (videos (st w))" using xU by blast
  define s1 where "s1 = (st w)\<lparr>videos := AList.update x (new_entry x url now') (videos (st w))\<rparr>"
  define s2 where "s2 = fst (persist v wok s1)"
  have p1: "paths_of s1 = paths_of (st w) @ [(x, None)]"
    by (simp add: s1_def paths_of_def update_absent [OF absent] new_entry_def)
  have p2: "paths_of s2 = paths_of (st w) @ [(x, None)]" and f2: "fs s2 = fs (st w)"
    by (simp_all add: s2_def persist_paths persist_fs p1) (simp add: s1_def)
  have invA: "coherent v D (insert x U) (w\<lparr>st := s2\<rparr>)"
    using coherent xU len p2 f2 by (rule coherent_add_entry)
  note un = fresh_unlinked [OF fsok xU len lenU]
  have invB: "coherent v D (insert x U) (downloadFull_start v D (the url) x (w\<lparr>st := s2\<rparr>))"
  proof (rule coherent_start [OF invA])
    show "x \<notin> task_id ` set (tasks (w\<lparr>st := s2\<rparr>))"
      using ids xU by (auto simp: ids_ok_def)
    show "\<not> truthy p" if "(x, p) \<in> set (paths_of (st (w\<lparr>st := s2\<rparr>)))" for p
    proof -
      have "x \<notin> fst ` set (paths_of (st w))" using ids xU by (auto simp: ids_ok_def)
      moreover from that have "(x, p) \<in> set (paths_of (st w)) \<or> p = None"
        by (auto simp add: p2)
      ultimately have "p = None" by (auto simp: image_iff)
      then show ?thesis by (simp add: truthy_def)
    qed
  qed (simp_all add: f2 un)
  have "step v sha1_hex valid_url D m (Add wok now now' url) w =
      (case snd (persist v wok s1) of
         Some e \<Rightarrow> w\<lparr>st := s2\<rparr>
       | None \<Rightarrow> downloadFull_start v D (the url) x (w\<lparr>st := s2\<rparr>))"
    using True
    by (simp add: step_def add_def Let_def x_def s1_def s2_def split: prod.splits option.splits)
  then show ?thesis
    using invA invB unfolding mint by (simp split: option.splits)
qed

lemma unlinkSync_rest:
  "inodes (fst (unlinkSync locked fsys p)) = inodes fsys"
  "next_ino (fst (unlinkSync locked fsys p)) = next_ino fsys"
  by (simp_all add: unlinkSync_def)

lemma cleanup_loop_rest:
  "inodes (fs (foldl (cleanup_entry now m locked) s xs)) = inodes (fs s) \<and>
   next_ino (fs (foldl (cleanup_entry now m locked) s xs)) = next_ino (fs s)"
proof (induction xs arbitrary: s)
  case Nil
  then show ?case by simp
next
  case (Cons x xs)
  obtain k e where x: "x = (k, e)" by (cases x)
  have "inodes (fs (cleanup_entry now m locked s (k, e))) = inodes (fs s) \<and>
      next_ino (fs (cleanup_entry now m locked s (k, e))) = next_ino (fs s)"
    by (simp add: cleanup_entry_def unlinkSync_rest)
  then show ?case unfolding x by (simp add: Cons.IH)
qed

lemma cleanup_rest:
  "inodes (fs (fst (cleanup v wok now m locked s))) = inodes (fs s)"
  "next_ino (fs (fst (cleanup v wok now m locked s))) = next_ino (fs s)"
  by (simp_all add: cleanup_def persist_fs cleanup_loop_rest)

lemma cleanup_paths:
  "paths_of (fst (cleanup v wok now m locked s)) =
     filter (\<lambda>(k, _). \<forall>e. (k, e) \<in> set (videos s) \<longrightarrow> \<not> stale now m e) (paths_of s)"
  unfolding paths_of_def cleanup_videos
  by (induction "videos s") (auto simp: filter_map comp_def case_prod_unfold)

lemma coherent_cleanup:
  assumes coherent: "coherent v D U w"
  shows "coherent v D U (step v sha1_hex valid_url D m (Cleanup wok now locked) w)"
proof -
  let ?s = "st w" and ?s' = "fst (cleanup v wok now m locked (st w))"
  let ?Q = "\<lambda>k. \<forall>e. (k, e) \<in> set (videos ?s) \<longrightarrow> \<not> stale now m e"
  have ids: "ids_ok U w" and fsok: "fs_ok D U (fs ?s)"
    and wr: "\<forall>t \<in> set (tasks w). writer_ok v D (fs ?s) t"
    and pr: "\<forall>kp \<in> set (paths_of ?s). promoted_ok D (fs ?s) (tasks w) kp"
    using coherent by (simp_all add: coherent_def)
  have paths: "paths_of ?s' = filter (\<lambda>(k, _). ?Q k) (paths_of ?s)"
    by (rule cleanup_paths)
  have sub: "set (paths_of ?s') \<subseteq> set (paths_of ?s)" unfolding paths by auto
  have evicted: "\<exists>k. q = filePath D k \<and> \<not> ?Q k \<and> length k = 12"
    if "links (fs ?s') q \<noteq> links (fs ?s) q" for q
  proof -
    from that obtain k e where ke: "(k, e) \<in> set (videos ?s)" "stale now m e" "q = the (path e)"
      unfolding cleanup_links by (auto split: if_splits)
    then have mem: "(k, path e) \<in> set (paths_of ?s)" by (force simp: paths_of_def)
    then have "promoted_ok D (fs ?s) (tasks w) (k, path e)" using pr by blast
    moreover have "truthy (path e)" using ke(2) by (simp add: stale_def)
    ultimately have "path e = Some (filePath D k)" by (simp add: promoted_ok_def)
    moreover have "length k = 12" using coherent mem by (rule coherent_lengths(2))
    ultimately show ?thesis using ke by auto
  qed
  have keep_tmp: "links (fs ?s') (tmpPath D x) = links (fs ?s) (tmpPath D x)" if "length x = 12" for x
  proof (rule ccontr)
    assume "links (fs ?s') (tmpPath D x) \<noteq> links (fs ?s) (tmpPath D x)"
    then obtain k where "tmpPath D x = filePath D k" "length k = 12"
      using evicted by blast
    then show False using that tmp_ne_file [of k x D] by simp
  qed
  have keep_file: "links (fs ?s') (filePath D x) = links (fs ?s) (filePath D x)" if "?Q x" for x
  proof (rule ccontr)
    assume "links (fs ?s') (filePath D x) \<noteq> links (fs ?s) (filePath D x)"
    then obtain k where "filePath D x = filePath D k" "\<not> ?Q k"
      using evicted by blast
    then show False using that by simp
  qed
  have only_less: "links (fs ?s') q = Some i \<Longrightarrow> links (fs ?s) q = Some i" for q i
    unfolding cleanup_links by (auto split: if_splits)
  have "ids_ok U (w\<lparr>st := ?s'\<rparr>)"
    using ids sub unfolding ids_ok_def
    by (auto simp: paths distinct_map_filter)
  moreover have "fs_ok D U (fs ?s')"
    using fsok only_less unfolding fs_ok_def cleanup_rest by blast
  moreover have "writer_ok v D (fs ?s') t" if "t \<in> set (tasks w)" for t
  proof -
    have old: "writer_ok v D (fs ?s) t" using wr that by simp
    have "length (task_id t) = 12" using that coherent by (rule coherent_lengths(1) [rotated])
    then show ?thesis
      by (intro writer_ok_frame [OF old]) (simp_all add: keep_tmp cleanup_rest)
  qed
  moreover have "promoted_ok D (fs ?s') (tasks w) (vid, p)" if mem: "(vid, p) \<in> set (paths_of ?s')" for vid p
  proof -
    have Q: "?Q vid" using mem unfolding paths by auto
    have old: "promoted_ok D (fs ?s) (tasks w) (vid, p)" using pr mem sub by blast
    show ?thesis
      by (rule promoted_ok_frame [OF old]) (simp_all add: keep_file [OF Q] cleanup_rest)
  qed
  ultimately show ?thesis
    by (auto simp: step_def coherent_def)
qed

lemma coherent_step:
  assumes "coherent v D U w" and "\<forall>s. length (sha1_hex s) = 40"
    and "set (minted sha1_hex valid_url [ev]) \<inter> U = {}"
  shows "coherent v D (U \<union> set (minted sha1_hex valid_url [ev])) (step v sha1_hex valid_url D m ev w)"
proof (cases ev)
  case (Add wok now now' url)
  then show ?thesis using assms coherent_add by blast
next
  case (Response k up wok wok')
  then show ?thesis using assms(1) by (simp add: coherent_response)
next
  case (Chunk k)
  then show ?thesis using assms(1) by (simp add: coherent_chunk)
next
  case (Abort k err wok')
  then show ?thesis using assms(1) by (simp add: coherent_abort)
next
  case (Finish k wok wok' now)
  then show ?thesis using assms(1) by (simp add: coherent_finish)
next
  case (Stream wok now vid rng)
  then show ?thesis using assms(1) by (simp add: coherent_stream)
next
  case (Cleanup wok now locked)
  then show ?thesis using assms(1) by (simp add: coherent_cleanup)
qed

lemma minted_append:
  "minted sha1_hex valid_url (evs @ evs') = minted sha1_hex valid_url evs @ minted sha1_hex valid_url evs'"
  by (induction sha1_hex valid_url evs rule: minted.induct) auto

lemma coherent_init: "coherent v D {} init_world"
  by (simp add: coherent_def ids_ok_def fs_ok_def init_world_def paths_of_def)

lemma coherent_run:
  assumes "\<forall>s. length (sha1_hex s) = 40" and "distinct (minted sha1_hex valid_url evs)"
  shows "coherent v D (set (minted sha1_hex valid_url evs)) (run v sha1_hex valid_url D m evs init_world)"
  using assms(2)
proof (induction evs rule: rev_induct)
  case Nil
  then show ?case by (simp add: run_def coherent_init)
next
  case (snoc ev evs)
  then have d: "distinct (minted sha1_hex valid_url evs)"
    and f: "set (minted sha1_hex valid_url [ev]) \<inter> set (minted sha1_hex valid_url evs) = {}"
    by (auto simp: minted_append)
  have "coherent v D (set (minted sha1_hex valid_url evs) \<union> set (minted sha1_hex valid_url [ev]))
      (step v sha1_hex valid_url D m ev (run v sha1_hex valid_url D m evs init_world))"
    using snoc.IH [OF d] assms(1) f by (rule coherent_step)
  then show ?case by (simp add: run_def minted_append)
qed


lemma toString_4: "toString 4 = ''4''" by code_simp


lemma ex_ids:
  "genId ex_sha1 ''http://x/a.mp4'' 1 = ''100000000000''"
  "genId ex_sha1 ''http://x/a.mp4'' 2 = ''200000000000''"
  by code_simp+

lemma ex_sha1_length: "\<forall>s. length (ex_sha1 s) = 40"
  by (simp add: ex_sha1_def)



section \<open>What /stream/:id answers for an id without a cached file\<close>

text \<open>The keys of the store are ids that \<open>/add\<close> calls have given out.\<close>


lemma set_entry_keys: "map fst (videos (set_entry vid f s)) = map fst (videos s)"
  by (auto simp: set_entry_def)

lemma persist_keys: "persist v wok s1 = (s2, e) \<Longrightarrow> videos s2 = videos s1"
  using persist_videos [of v wok s1] by simp

lemma on_error_keys:
  "map fst (videos (fst (on_error v wok vid err s))) = map fst (videos s)"
  by (cases v) (simp_all add: on_error_def Let_def persist_videos set_entry_keys)

lemma downloadFull_end_keys:
  "map fst (videos (fst (downloadFull_end v D wok wok' now vid s))) = map fst (videos s)"
proof (cases "renameSync (fs s) (tmpPath D vid) (filePath D vid)")
  case (Pair fs1 r)
  show ?thesis
  proof (cases r)
    case (Some e)
    then show ?thesis by (simp add: downloadFull_end_def Pair on_error_keys)
  next
    case None
    show ?thesis
    proof (cases "map_of (videos s) vid = None")
      case True
      then show ?thesis by (simp add: downloadFull_end_def Pair None Let_def on_error_keys)
    next
      case False
      let ?s2 = "set_entry vid
          (\<lambda>e. e\<lparr>status := Ready, path := Some (filePath D vid),
                entry_size := Some (statSync_size fs1 (filePath D vid)),
                lastAccess := Some now\<rparr>) (s\<lparr>fs := fs1\<rparr>)"
      obtain s3 r3 where p: "persist v wok ?s2 = (s3, r3)" by (cases "persist v wok ?s2")
      then have "map fst (videos s3) = map fst (videos s)"
        using persist_keys [OF p] by (simp add: set_entry_keys)
      then show ?thesis
        using False by (cases r3) (simp_all add: downloadFull_end_def Pair None Let_def p on_error_keys)
    qed
  qed
qed

lemma downloadFull_response_keys:
  assumes "downloadFull_response v D wok wok' up t s = (s', t')"
  shows "map fst (videos s') = map fst (videos s)"
proof (cases up)
  case Unreachable
  then show ?thesis using assms by (auto simp: downloadFull_response_def on_error_keys)
next
  case (Head code chunks)
  show ?thesis
  proof (cases v)
    case VPS
    then show ?thesis
      using assms Head by (auto simp: downloadFull_response_def on_error_keys split: if_splits)
  next
    case MF
    have "map fst (videos s3) = map fst (videos s)"
      if "persist MF wok (set_entry x f s) = (s3, r3)" for x f s3 r3
      using persist_keys [OF that] by (simp add: set_entry_keys)
    then show ?thesis
      using assms Head MF
      by (fastforce simp: downloadFull_response_def on_error_keys
          split: if_splits prod.splits option.splits)
  qed
qed

lemma stream_keys:
  "map fst (videos (fst (stream v wok now vid rng s))) = map fst (videos s)"
proof -
  have "map fst (paths_of x) = map fst (videos x)" for x
    by (simp add: paths_of_def comp_def case_prod_unfold)
  then show ?thesis by (metis stream_paths)
qed

lemma keys_image:
  "fst ` set (videos (fst (on_error v wok vid err s))) = fst ` set (videos s)"
  "fst ` set (videos (fst (downloadFull_end v D wok wok' now vid s))) = fst ` set (videos s)"
  "fst ` set (videos (fst (stream v wok now vid rng s))) = fst ` set (videos s)"
proof -
  have img: "fst ` set xs = fst ` set ys" if "map fst xs = map fst ys"
    for xs ys :: "(string \<times> entry) list"
    using that by (metis list.set_map)
  show "fst ` set (videos (fst (on_error v wok vid err s))) = fst ` set (videos s)"
    by (rule img) (rule on_error_keys)
  show "fst ` set (videos (fst (downloadFull_end v D wok wok' now vid s))) = fst ` set (videos s)"
    by (rule img) (rule downloadFull_end_keys)
  show "fst ` set (videos (fst (stream v wok now vid rng s))) = fst ` set (videos s)"
    by (rule img) (rule stream_keys)
qed

lemma cleanup_keys:
  "set (map fst (videos (fst (cleanup v wok now m locked s)))) \<subseteq> set (map fst (videos s))"
  by (auto simp: cleanup_videos)

lemma add_keys:
  "set (map fst (videos (st (fst (add v sha1_hex valid_url D wok now now' url w))))) \<subseteq>
     set (map fst (videos (st w))) \<union> set (minted sha1_hex valid_url [Add wok now now' url])"
proof (cases "truthy url \<and> valid_url (the url)")
  case False
  then show ?thesis by (auto simp: add_def)
next
  case True
  let ?vid = "genId sha1_hex (the url) now"
  let ?s1 = "(st w)\<lparr>videos := AList.update ?vid (new_entry ?vid url now') (videos (st w))\<rparr>"
  obtain s2 r where p: "persist v wok ?s1 = (s2, r)" by (cases "persist v wok ?s1")
  have st: "videos (st (downloadFull_start v D u x w')) = videos (st w')" for u x w'
    by (cases v) (simp_all add: downloadFull_start_def split: prod.splits)
  have "videos (st (fst (add v sha1_hex valid_url D wok now now' url w))) = videos ?s1"
    using True persist_keys [OF p] by (cases r) (simp_all add: add_def Let_def p st)
  moreover have "fst ` set (AList.update ?vid (new_entry ?vid url now') (videos (st w))) =
      insert ?vid (fst ` set (videos (st w)))"
    by (simp add: AList.dom_update)
  ultimately show ?thesis using True by simp
qed

lemma step_keys:
  "set (map fst (videos (st (step v sha1_hex valid_url D m ev w)))) \<subseteq>
     set (map fst (videos (st w))) \<union> set (minted sha1_hex valid_url [ev])"
proof (cases ev)
  case (Add wok now now' url)
  then show ?thesis using add_keys [of v sha1_hex valid_url D wok now now' url w]
    by (simp add: step_def)
next
  case (Response k up wok wok')
  obtain s' t' where p: "downloadFull_response v D wok wok' up (tasks w ! k) (st w) = (s', t')"
    by (cases "downloadFull_response v D wok wok' up (tasks w ! k) (st w)")
  then have "map fst (videos s') = map fst (videos (st w))"
    by (rule downloadFull_response_keys)
  then have "fst ` set (videos s') = fst ` set (videos (st w))"
    by (metis list.set_map)
  then show ?thesis using Response p by (simp add: step_def)
next
  case (Chunk k)
  then show ?thesis by (simp add: step_def split: prod.splits)
next
  case (Abort k err wok')
  then show ?thesis by (simp add: step_def keys_image)
next
  case (Finish k wok wok' now)
  then show ?thesis by (simp add: step_def keys_image)
next
  case (Stream wok now vid rng)
  then show ?thesis by (simp add: step_def keys_image)
next
  case (Cleanup wok now locked)
  then show ?thesis using cleanup_keys [of v wok now m locked "st w"] by (simp add: step_def)
qed

lemma run_keys:
  "set (map fst (videos (st (run v sha1_hex valid_url D m evs init_world)))) \<subseteq>
     set (minted sha1_hex valid_url evs)"
proof (induction evs rule: rev_induct)
  case Nil
  then show ?case by (simp add: run_def init_world_def)
next
  case (snoc ev evs)
  let ?w = "run v sha1_hex valid_url D m evs init_world"
  have "set (map fst (videos (st (step v sha1_hex valid_url D m ev ?w)))) \<subseteq>
      set (minted sha1_hex valid_url evs) \<union> set (minted sha1_hex valid_url [ev])"
    using snoc.IH step_keys [of v sha1_hex valid_url D m ev ?w] by blast
  then show ?case by (simp add: run_def minted_append)
qed

lemma never_added:
  assumes "vid \<notin> set (minted sha1_hex valid_url evs)"
  shows "map_of (videos (st (run v sha1_hex valid_url D m evs init_world))) vid = None"
  using assms run_keys [of v sha1_hex valid_url D m evs] by (auto simp: map_of_eq_None_iff)

lemma in_progress:
  assumes "\<forall>x. length (sha1_hex x) = 40" and "distinct (minted sha1_hex valid_url evs)"
    and "t \<in> set (tasks (run v sha1_hex valid_url D m evs init_world))"
    and "phase t \<noteq> Settled"
    and "map_of (videos (st (run v sha1_hex valid_url D m evs init_world))) (task_id t) = Some info"
  shows "\<not> truthy (path info)"
proof -
  let ?w = "run v sha1_hex valid_url D m evs init_world"
  have c: "coherent v D (set (minted sha1_hex valid_url evs)) ?w"
    using assms(1,2) by (rule coherent_run)
  have "(task_id t, info) \<in> set (videos (st ?w))" using assms(5) by (rule map_of_SomeD)
  then have "(task_id t, path info) \<in> set (paths_of (st ?w))"
    by (force simp: paths_of_def)
  then show ?thesis using live_not_promoted [OF c assms(3,4)] by blast
qed

text \<open>
  C6, as amended. \<open>/stream/:id\<close> answers 404 with the body \<open>{"error":"not cached"}\<close>
  exactly when the id has no entry in the store, or its entry has no path, or no file
  exists at the entry's path; no other answer of the handler has status 404. On a server
  started with an empty store and run by \<open>/add\<close>, \<open>downloadFull\<close>, \<open>/stream/:id\<close>
  and the cleanup task, an id that no \<open>/add\<close> call has given out gets this 404, and,
  as long as no two \<open>/add\<close> calls were given the same id, so does an id whose
  download is still in progress.
\<close>

theorem stream_404_iff:
  "((snd (stream v wok now vid rng s) =
       Responded \<lparr>statusCode = 404, headers = [], body = ''{\"error\":\"not cached\"}''\<rparr>) =
      (map_of (videos s) vid = None \<or>
       (\<exists>info. map_of (videos s) vid = Some info \<and>
          (\<not> truthy (path info) \<or> \<not> existsSync (fs s) (the (path info)))))) \<and>
   ((\<exists>r. snd (stream v wok now vid rng s) = Responded r \<and> statusCode r = 404) =
      (map_of (videos s) vid = None \<or>
       (\<exists>info. map_of (videos s) vid = Some info \<and>
          (\<not> truthy (path info) \<or> \<not> existsSync (fs s) (the (path info)))))) \<and>
   (vid \<notin> set (minted sha1_hex valid_url evs) \<longrightarrow>
      snd (stream v wok now vid rng
             (st (run v sha1_hex valid_url DATA_DIR INACTIVITY_MINUTES evs init_world))) =
        Responded \<lparr>statusCode = 404, headers = [], body = ''{\"error\":\"not cached\"}''\<rparr>) \<and>
   ((\<forall>x. length (sha1_hex x) = 40) \<and> distinct (minted sha1_hex valid_url evs) \<and>
    t \<in> set (tasks (run v sha1_hex valid_url DATA_DIR INACTIVITY_MINUTES evs init_world)) \<and>
    task_id t = vid \<and> phase t \<noteq> Settled \<longrightarrow>
      snd (stream v wok now vid rng
             (st (run v sha1_hex valid_url DATA_DIR INACTIVITY_MINUTES evs init_world))) =
        Responded \<lparr>statusCode = 404, headers = [], body = ''{\"error\":\"not cached\"}''\<rparr>)"
proof -
  let ?nc = "\<lparr>statusCode = 404, headers = [], body = ''{\"error\":\"not cached\"}''\<rparr>"
  let ?w = "run v sha1_hex valid_url DATA_DIR INACTIVITY_MINUTES evs init_world"
  have nc: "not_cached = ?nc" by (simp add: not_cached_def json_error_def)
  have iff: "(snd (stream v wok now vid rng s) = Responded ?nc) =
      (map_of (videos s) vid = None \<or>
       (\<exists>info. map_of (videos s) vid = Some info \<and>
          (\<not> truthy (path info) \<or> \<not> existsSync (fs s) (the (path info)))))"
    and any: "(\<exists>r. snd (stream v wok now vid rng s) = Responded r \<and> statusCode r = 404) =
      (map_of (videos s) vid = None \<or>
       (\<exists>info. map_of (videos s) vid = Some info \<and>
          (\<not> truthy (path info) \<or> \<not> existsSync (fs s) (the (path info)))))" for s
  proof -
    show "(snd (stream v wok now vid rng s) = Responded ?nc) =
      (map_of (videos s) vid = None \<or>
       (\<exists>info. map_of (videos s) vid = Some info \<and>
          (\<not> truthy (path info) \<or> \<not> existsSync (fs s) (the (path info)))))"
    proof (cases "map_of (videos s) vid")
      case None
      then show ?thesis by (simp add: stream_absent nc)
    next
      case (Some info)
      show ?thesis
      proof (cases "truthy (path info) \<and> existsSync (fs s) (the (path info))")
        case True
        have "serve_file rng c \<noteq> Responded ?nc" for c
          using serve_file_not_404 [of rng c ?nc] by auto
        with True Some show ?thesis
          using stream_cached [of s vid info v wok now rng] by auto
      next
        case False
        with Some show ?thesis
          using stream_not_ready [of s vid info v wok now rng] by (auto simp: nc)
      qed
    qed
    show "(\<exists>r. snd (stream v wok now vid rng s) = Responded r \<and> statusCode r = 404) =
      (map_of (videos s) vid = None \<or>
       (\<exists>info. map_of (videos s) vid = Some info \<and>
          (\<not> truthy (path info) \<or> \<not> existsSync (fs s) (the (path info)))))"
    proof (cases "map_of (videos s) vid")
      case None
      then show ?thesis by (simp add: stream_absent not_cached_404)
    next
      case (Some info)
      show ?thesis
      proof (cases "truthy (path info) \<and> existsSync (fs s) (the (path info))")
        case True
        with Some show ?thesis
          using stream_cached [of s vid info v wok now rng] serve_file_not_404 [of rng]
          by auto
      next
        case False
        with Some show ?thesis
          using stream_not_ready [of s vid info v wok now rng] by (auto simp: not_cached_404)
      qed
    qed
  qed
  have never: "snd (stream v wok now vid rng (st ?w)) = Responded ?nc"
    if "vid \<notin> set (minted sha1_hex valid_url evs)"
    using never_added [OF that, of v DATA_DIR INACTIVITY_MINUTES] iff [of "st ?w"] by simp
  have live: "snd (stream v wok now vid rng (st ?w)) = Responded ?nc"
    if "\<forall>x. length (sha1_hex x) = 40" "distinct (minted sha1_hex valid_url evs)"
      "t \<in> set (tasks ?w)" "task_id t = vid" "phase t \<noteq> Settled"
  proof (cases "map_of (videos (st ?w)) vid")
    case None
    then show ?thesis using iff [of "st ?w"] by simp
  next
    case (Some info)
    then have "\<not> truthy (path info)"
      using in_progress [OF that(1,2,3) that(5), of info] that(4) by simp
    with Some show ?thesis using iff [of "st ?w"] by simp
  qed
  show ?thesis using iff [of s] any [of s] never live by blast
qed

lemma ex_trace_tasks:
  "map (\<lambda>t. (task_id t, phase t)) (tasks (run MF ex_sha1 (\<lambda>_. True) ''data'' 60 ex_trace init_world)) =
     [(''100000000000'', Settled), (''200000000000'', Piping)]"
  "minted ex_sha1 (\<lambda>_. True) ex_trace = [''100000000000'', ''200000000000'']"
  "map_of (videos (st (run MF ex_sha1 (\<lambda>_. True) ''data'' 60 ex_trace init_world)))
     ''100000000000'' = Some ex_promoted"
  "existsSync (fs (st (run MF ex_sha1 (\<lambda>_. True) ''data'' 60 ex_trace init_world)))
     ''data/100000000000''"
  by (simp_all add: existsSync_def ex_trace_def run_def step_def add_def truthy_def init_world_def persist_def ex_ids
      downloadFull_start_def downloadFull_response_def createWriteStream_def downloadFull_chunk_def
      downloadFull_end_def renameSync_def set_entry_def write_at_def settle_def tmpPath_def filePath_def
      statSync_size_def readFile_def ex_promoted_def new_entry_def
      Let_def split: prod.splits)

lemma ex_trace_live:
  "tasks (run MF ex_sha1 (\<lambda>_. True) ''data'' 60 ex_trace init_world) ! 1 \<in>
     set (tasks (run MF ex_sha1 (\<lambda>_. True) ''data'' 60 ex_trace init_world))"
  "task_id (tasks (run MF ex_sha1 (\<lambda>_. True) ''data'' 60 ex_trace init_world) ! 1) =
     ''200000000000''"
  "phase (tasks (run MF ex_sha1 (\<lambda>_. True) ''data'' 60 ex_trace init_world) ! 1) = Piping"
proof -
  let ?ts = "tasks (run MF ex_sha1 (\<lambda>_. True) ''data'' 60 ex_trace init_world)"
  have m: "map (\<lambda>t. (task_id t, phase t)) ?ts =
      [(''100000000000'', Settled), (''200000000000'', Piping)]"
    by (rule ex_trace_tasks(1))
  have "length (map (\<lambda>t. (task_id t, phase t)) ?ts) = 2" unfolding m by simp
  then have len: "length ?ts = 2" by simp
  then show "?ts ! 1 \<in> set ?ts" by simp
  have "map (\<lambda>t. (task_id t, phase t)) ?ts ! 1 = (task_id (?ts ! 1), phase (?ts ! 1))"
    using len by simp
  then have "(task_id (?ts ! 1), phase (?ts ! 1)) = (''200000000000'', Piping)"
    unfolding m by simp
  then show "task_id (?ts ! 1) = ''200000000000''" and "phase (?ts ! 1) = Piping"
    by simp_all
qed

theorem stream_404_iff_witness:
  "snd (stream MF True 950 ''200000000000'' None
          (st (run MF ex_sha1 (\<lambda>_. True) ''data'' 60 ex_trace init_world))) =
     Responded \<lparr>statusCode = 404, headers = [], body = ''{\"error\":\"not cached\"}''\<rparr> \<and>
   snd (stream MF True 950 ''ffffffffffff'' None
          (st (run MF ex_sha1 (\<lambda>_. True) ''data'' 60 ex_trace init_world))) =
     Responded \<lparr>statusCode = 404, headers = [], body = ''{\"error\":\"not cached\"}''\<rparr> \<and>
   snd (stream MF True 950 ''100000000000'' None
          (st (run MF ex_sha1 (\<lambda>_. True) ''data'' 60 ex_trace init_world))) \<noteq>
     Responded \<lparr>statusCode = 404, headers = [], body = ''{\"error\":\"not cached\"}''\<rparr>"
  using stream_404_iff [where v = MF and sha1_hex = ex_sha1 and valid_url = "\<lambda>_. True"
      and DATA_DIR = "''data''" and INACTIVITY_MINUTES = 60 and evs = ex_trace
      and vid = "''200000000000''" and wok = True and now = 950 and rng = None
      and t = "tasks (run MF ex_sha1 (\<lambda>_. True) ''data'' 60 ex_trace init_world) ! 1"]
    stream_404_iff [where v = MF and sha1_hex = ex_sha1 and valid_url = "\<lambda>_. True"
      and DATA_DIR = "''data''" and INACTIVITY_MINUTES = 60 and evs = ex_trace
      and vid = "''ffffffffffff''" and wok = True and now = 950 and rng = None]
    stream_404_iff [where v = MF and vid = "''100000000000''" and wok = True and now = 950
      and rng = None and s = "st (run MF ex_sha1 (\<lambda>_. True) ''data'' 60 ex_trace init_world)"]
    ex_sha1_length ex_trace_live
  by (simp add: ex_trace_tasks(2,3,4) truthy_def ex_promoted_def)

text \<open>
  C6 as the specification states it fails in mainframe\_server when two \<open>/add\<close> calls
  for one URL fall into one millisecond and share an id: after the first download has
  renamed the file, the second download of that id is still in progress, and
  \<open>/stream/:id\<close> answers 200, not 404.
\<close>

theorem stream_404_iff_counterexample:
  "\<forall>sha1_hex.
     map (\<lambda>t. (task_id t, phase t))
       (tasks (run MF sha1_hex (\<lambda>_. True) ''data'' 60 race init_world)) =
       [(genId sha1_hex ''http://x/a.mp4'' 1700000000000, Settled),
        (genId sha1_hex ''http://x/a.mp4'' 1700000000000, Piping)] \<and>
     snd (stream MF True 1700000000950 (genId sha1_hex ''http://x/a.mp4'' 1700000000000) None
          (st (run MF sha1_hex (\<lambda>_. True) ''data'' 60 race init_world))) =
       Responded
         \<lparr>statusCode = 200,
          headers = [(''Content-Length'', ''4''), (''Content-Type'', ''video/mp4''),
                     (''Accept-Ranges'', ''bytes''), (''Cache-Control'', ''no-store'')],
          body = [CHR 0x00, CHR 0x00, CHR ''c'', CHR ''d'']\<rparr>"
  by (simp add: race_def run_def step_def add_def truthy_def init_world_def persist_def
      downloadFull_start_def downloadFull_response_def createWriteStream_def downloadFull_chunk_def
      downloadFull_end_def renameSync_def set_entry_def write_at_def settle_def tmpPath_def filePath_def
      statSync_size_def readFile_def stream_def existsSync_def touch_def serve_file_def toString_4
      new_entry_def Let_def split: prod.splits)

end
